theory Spec2Isabelle
  imports Main "HOL-Library.Word"
begin

unbundle bit_operations_syntax

section \<open>Shared declarations (udp\_client.h, audio\_handler.h)\<close>

text \<open>
  The target is the ESP32-S3: \<open>uint8_t\<close>, \<open>int16_t\<close>, \<open>uint32_t\<close> and \<open>uint64_t\<close>
  are words of that width, \<open>size_t\<close> is 32 bits wide and memory is little-endian.
  \<open>int64_t\<close> clock readings are modelled as \<open>int\<close>: they are tick counts scaled to
  milliseconds, so their differences stay far inside the 64-bit range.
\<close>

type_synonym u8 = "8 word"
type_synonym i16 = "16 word"
type_synonym u32 = "32 word"
type_synonym u64 = "64 word"

datatype voice_state_t = STATE_IDLE | STATE_USER_SPEAKING | STATE_AI_SPEAKING

datatype esp_err_t =
  ESP_OK | ESP_FAIL | ESP_ERR_NO_MEM | ESP_ERR_INVALID_ARG | ESP_ERR_INVALID_STATE
  | ESP_ERR_TIMEOUT

definition UDP_MSG_PLAY_AUDIO :: u8 where "UDP_MSG_PLAY_AUDIO = 0x20"
definition UDP_MSG_PLAY_AUDIO_LAST :: u8 where "UDP_MSG_PLAY_AUDIO_LAST = 0x21"
definition UDP_MSG_STATE_IDLE :: u8 where "UDP_MSG_STATE_IDLE = 0x30"
definition UDP_MSG_STATE_AI_SPEAKING :: u8 where "UDP_MSG_STATE_AI_SPEAKING = 0x32"

definition AUDIO_RMS_STOP_THRESHOLD :: u32 where "AUDIO_RMS_STOP_THRESHOLD = 500"
definition SILENCE_DURATION_MS :: int where "SILENCE_DURATION_MS = 5000"
definition AUDIO_QUEUE_LENGTH :: nat where "AUDIO_QUEUE_LENGTH = 3500"

text \<open>
  \<open>audio_chunk_t\<close>. The C struct holds a fixed array of 1440 bytes of which the first
  \<open>length\<close> are valid; the model keeps exactly the valid bytes.
\<close>

record audio_chunk_t =
  data :: "u8 list"
  length_bytes :: nat
  sequence :: u32
  is_last_chunk :: bool

section \<open>FreeRTOS queue primitives\<close>

text \<open>
  A FreeRTOS queue is a FIFO of at most \<open>uxLength\<close> items, fixed when the queue is
  created. \<open>xQueueSend\<close> with a zero timeout appends the item when there is room and
  fails at once otherwise; \<open>xQueueReceive\<close> takes the oldest item, and \<open>None\<close> is the
  expiry of its timeout on an empty queue.
\<close>

record 'a queue_t =
  items :: "'a list"
  uxLength :: nat

definition xQueueCreateStatic :: "nat \<Rightarrow> 'a queue_t" where
  "xQueueCreateStatic n = \<lparr>items = [], uxLength = n\<rparr>"

definition uxQueueMessagesWaiting :: "'a queue_t \<Rightarrow> nat" where
  "uxQueueMessagesWaiting q = length (items q)"

definition uxQueueSpacesAvailable :: "'a queue_t \<Rightarrow> nat" where
  "uxQueueSpacesAvailable q = uxLength q - length (items q)"

definition xQueueSend :: "'a queue_t \<Rightarrow> 'a \<Rightarrow> 'a queue_t option" where
  "xQueueSend q x =
     (if length (items q) < uxLength q then Some (q\<lparr>items := items q @ [x]\<rparr>) else None)"

definition xQueueReceive :: "'a queue_t \<Rightarrow> ('a \<times> 'a queue_t) option" where
  "xQueueReceive q =
     (case items q of [] \<Rightarrow> None | x # xs \<Rightarrow> Some (x, q\<lparr>items := xs\<rparr>))"

section \<open>Playback state and the jitter buffer (audio\_handler.c)\<close>

text \<open>
  Warnings written with \<open>ESP_LOGW\<close> are kept as a trace; informational log lines are
  not modelled.
\<close>

datatype log_t =
  LogChunkTooLarge nat
  | LogQueueFull u32
  | LogPacketLoss u32 u32 u32 u32
  | LogOversized u32 nat
  | LogEmptyPacket u32
  | LogUnderrun u32
  | LogNoSilenceBuffer
  | LogPlaybackAlreadyActive

text \<open>
  What the playback task does to the outside world, in order. \<open>I2sWriteChunk\<close> is the
  \<open>i2s_channel_write\<close> of a dequeued chunk (its samples scaled by
  \<open>PLAYBACK_VOLUME_SCALE\<close> in floating point, which is not modelled: the event
  carries the chunk as dequeued); \<open>I2sWriteSilence n\<close> is the write of \<open>n\<close> zero bytes.
\<close>

datatype playback_event =
  I2sEnable esp_err_t
  | I2sWriteChunk audio_chunk_t
  | I2sWriteSilence nat
  | I2sDisable
  | TaskDelay nat
  | UdpSendPlaybackComplete

text \<open>
  Where the playback task stands: not created, at its entry, in the pre-buffer wait
  loop, in the playing loop, deleted (\<open>vTaskDelete\<close>), or stopped by a failed kernel
  assertion (a queue call on a null handle).
\<close>

datatype task_pc = NoTask | TaskEntry | PreBuffering | Playing | TaskDeleted | TaskAborted

record playback =
  audio_playback_queue :: "audio_chunk_t queue_t option"
  queue_playback_task_handle :: bool
  queue_playback_active :: bool
  total_chunks_played :: u32
  queue_underrun_count :: u32
  task_pc :: task_pc
  stop_waiting :: bool
  events :: "playback_event list"
  warnings :: "log_t list"

text \<open>The static initialisers of the playback variables.\<close>

definition playback_statics :: playback where
  "playback_statics = \<lparr>audio_playback_queue = None, queue_playback_task_handle = False,
     queue_playback_active = False, total_chunks_played = 0, queue_underrun_count = 0,
     task_pc = NoTask, stop_waiting = False, events = [], warnings = []\<rparr>"

text \<open>\<open>audio_playback_queue_init\<close>; the argument is whether the PSRAM allocation succeeds.\<close>

definition audio_playback_queue_init :: "bool \<Rightarrow> playback \<Rightarrow> esp_err_t \<times> playback" where
  "audio_playback_queue_init malloc_ok s =
     (if \<not> malloc_ok then (ESP_ERR_NO_MEM, s)
      else (ESP_OK, s\<lparr>audio_playback_queue := Some (xQueueCreateStatic AUDIO_QUEUE_LENGTH)\<rparr>))"

text \<open>
  \<open>audio_playback_queue_push(data, len, seq, is_last)\<close>: \<open>dat\<close> is the memory behind
  the \<open>data\<close> pointer.
\<close>

definition audio_playback_queue_push ::
  "u8 list \<Rightarrow> nat \<Rightarrow> u32 \<Rightarrow> bool \<Rightarrow> playback \<Rightarrow> esp_err_t \<times> playback" where
  "audio_playback_queue_push dat len seq is_last s =
     (case audio_playback_queue s of
        None \<Rightarrow> (ESP_ERR_INVALID_STATE, s)
      | Some q \<Rightarrow>
          let s1 = (if len > 1440 then s\<lparr>warnings := warnings s @ [LogChunkTooLarge len]\<rparr> else s);
              len1 = (if len > 1440 then 1440 else len);
              chunk = \<lparr>data = take len1 dat, length_bytes = len1, sequence = seq,
                       is_last_chunk = is_last\<rparr>
          in (case xQueueSend q chunk of
                None \<Rightarrow> (ESP_ERR_NO_MEM, s1\<lparr>warnings := warnings s1 @ [LogQueueFull seq]\<rparr>)
              | Some q1 \<Rightarrow> (ESP_OK, s1\<lparr>audio_playback_queue := Some q1\<rparr>)))"

section \<open>The receive path (udp\_client.c)\<close>

record udp_client =
  packets_received :: u32
  last_received_seq :: u32
  packets_lost :: u32
  state_change_callback :: bool
  udp_warnings :: "log_t list"

text \<open>The static initialisers of the client's counters; no callback is registered.\<close>

definition udp_statics :: udp_client where
  "udp_statics = \<lparr>packets_received = 0, last_received_seq = 0, packets_lost = 0,
     state_change_callback = False, udp_warnings = []\<rparr>"

definition RX_BUFFER_SIZE :: nat where "RX_BUFFER_SIZE = 2048"

text \<open>\<open>*(uint32_t * )&rx_buffer[i]\<close> on a little-endian machine.\<close>

definition read_u32 :: "u8 list \<Rightarrow> nat \<Rightarrow> u32" where
  "read_u32 buf i =
     ucast (buf ! i) OR push_bit 8 (ucast (buf ! (i + 1)))
       OR push_bit 16 (ucast (buf ! (i + 2))) OR push_bit 24 (ucast (buf ! (i + 3)))"

text \<open>
  The packet-loss check, written out twice in \<open>udp_receive_task\<close> (once per audio
  message type) with the same text.
\<close>

definition loss_detection :: "u32 \<Rightarrow> udp_client \<Rightarrow> udp_client" where
  "loss_detection seq u =
     (let u1 = (if seq > 0 \<and> last_received_seq u > 0 \<and> seq \<noteq> last_received_seq u + 1
                then let gap = seq - last_received_seq u - 1;
                         lost = packets_lost u + gap
                     in u\<lparr>packets_lost := lost,
                          udp_warnings := udp_warnings u
                            @ [LogPacketLoss (last_received_seq u + 1) seq gap lost]\<rparr>
                else u)
      in u1\<lparr>last_received_seq := seq\<rparr>)"

text \<open>
  One iteration of the receive loop for a datagram that \<open>recvfrom\<close> delivered:
  \<open>rx_buffer\<close> holds its first \<open>RX_BUFFER_SIZE\<close> bytes and \<open>len\<close> is their number.
  The result is the client state, the playback state, and the call made through
  \<open>state_change_callback\<close>, if any. The return value of \<open>audio_playback_queue_push\<close>
  is discarded, as in the source.
\<close>

definition udp_receive_datagram ::
  "u8 list \<Rightarrow> udp_client \<times> playback \<Rightarrow> udp_client \<times> playback \<times> voice_state_t option" where
  "udp_receive_datagram dgram up =
     (let u = fst up; p = snd up;
          rx_buffer = take RX_BUFFER_SIZE dgram;
          len = length rx_buffer
      in if len > 0 then
           let u0 = u\<lparr>packets_received := packets_received u + 1\<rparr>;
               msg_type = rx_buffer ! 0
           in if msg_type = UDP_MSG_PLAY_AUDIO then
                if len \<ge> 5 then
                  let seq = read_u32 rx_buffer 1;
                      audio_data = drop 5 rx_buffer;
                      audio_len = len - 5;
                      u1 = loss_detection seq u0;
                      u2 = (if audio_len > 1440
                            then u1\<lparr>udp_warnings := udp_warnings u1 @ [LogOversized seq audio_len]\<rparr>
                            else u1);
                      audio_len1 = (if audio_len > 1440 then 1440 else audio_len)
                  in if audio_len1 = 0
                     then (u2\<lparr>udp_warnings := udp_warnings u2 @ [LogEmptyPacket seq]\<rparr>, p, None)
                     else (u2, snd (audio_playback_queue_push audio_data audio_len1 seq False p), None)
                else (u0, p, None)
              else if msg_type = UDP_MSG_PLAY_AUDIO_LAST then
                if len \<ge> 5 then
                  let seq = read_u32 rx_buffer 1;
                      audio_data = drop 5 rx_buffer;
                      audio_len = len - 5;
                      u1 = loss_detection seq u0;
                      u2 = (if audio_len > 1440
                            then u1\<lparr>udp_warnings := udp_warnings u1 @ [LogOversized seq audio_len]\<rparr>
                            else u1);
                      audio_len1 = (if audio_len > 1440 then 1440 else audio_len)
                  in if audio_len1 = 0
                     then (u2\<lparr>udp_warnings := udp_warnings u2 @ [LogEmptyPacket seq]\<rparr>, p, None)
                     else (u2\<lparr>last_received_seq := 0, packets_lost := 0\<rparr>,
                           snd (audio_playback_queue_push audio_data audio_len1 seq True p), None)
                else (u0, p, None)
              else if msg_type = UDP_MSG_STATE_IDLE then
                (u0, p, if state_change_callback u0 then Some STATE_IDLE else None)
              else if msg_type = UDP_MSG_STATE_AI_SPEAKING then
                (u0, p, if state_change_callback u0 then Some STATE_AI_SPEAKING else None)
              else (u0, p, None)
         else (u, p, None))"

text \<open>The receive loop over the datagrams that arrive, in order.\<close>

fun udp_receive_all :: "u8 list list \<Rightarrow> udp_client \<times> playback \<Rightarrow> udp_client \<times> playback" where
  "udp_receive_all [] up = up"
| "udp_receive_all (d # ds) up =
     (let r = udp_receive_datagram d up in udp_receive_all ds (fst r, fst (snd r)))"

text \<open>The bytes of an audio message: type, sequence (little-endian), payload.\<close>

definition audio_msg :: "u8 \<Rightarrow> u32 \<Rightarrow> u8 list \<Rightarrow> u8 list" where
  "audio_msg ty seq payload =
     ty # ucast seq # ucast (drop_bit 8 seq) # ucast (drop_bit 16 seq) # ucast (drop_bit 24 seq)
        # payload"

section \<open>Loudness (audio\_handler.c)\<close>

text \<open>
  \<open>audio_calculate_rms\<close>. The loop body is \<open>int32_t sample = samples[i]; sum += (sample * sample)\<close>:
  a 32-bit signed product, converted to the 64-bit unsigned accumulator.
\<close>

definition square_sample :: "i16 \<Rightarrow> u64" where
  "square_sample s = (let sample = (scast s :: 32 word) in scast (sample * sample))"

fun sum_squares :: "i16 list \<Rightarrow> u64 \<Rightarrow> u64" where
  "sum_squares [] acc = acc"
| "sum_squares (s # ss) acc = sum_squares ss (acc + square_sample s)"

text \<open>
  The square-root loop \<open>while (y < x) { x = y; y = (x + mean / x) / 2; }\<close>. The division
  is by the new \<open>x\<close>, the old \<open>y\<close>; \<open>None\<close> is the division by zero.
\<close>

function babylonian :: "u32 \<Rightarrow> u32 \<Rightarrow> u32 \<Rightarrow> u32 option" where
  "babylonian mean x y =
     (if y < x then (if y = 0 then None else babylonian mean y ((y + mean div y) div 2))
      else Some x)"
  by pat_completeness auto
termination
  by (relation "measure (\<lambda>(mean, x, y). unat x)") (auto simp add: word_less_nat_alt)

declare babylonian.simps [simp del]

text \<open>
  \<open>samples\<close> is \<open>None\<close> for the null pointer and otherwise the array it points to;
  the loop reads its first \<open>sample_count\<close> elements.
\<close>

definition audio_calculate_rms :: "i16 list option \<Rightarrow> u32 \<Rightarrow> u32 option" where
  "audio_calculate_rms samples sample_count =
     (case samples of
        None \<Rightarrow> Some 0
      | Some xs \<Rightarrow>
          if sample_count = 0 then Some 0
          else let total = sum_squares (take (unat sample_count) xs) 0;
                   mean = (ucast (total div ucast sample_count) :: u32)
               in if mean = 0 then Some 0 else babylonian mean mean ((mean + 1) div 2))"

text \<open>
  The specification's loudness: the mean of the squared samples, over the integers.
  The root-mean-square is the natural number \<open>r\<close> with \<open>r\<^sup>2 \<le> mean_square < (r + 1)\<^sup>2\<close>.
\<close>

definition mean_square :: "i16 list \<Rightarrow> u32 \<Rightarrow> nat" where
  "mean_square xs n = (\<Sum>s\<leftarrow>take (unat n) xs. nat ((sint s)\<^sup>2)) div unat n"

text \<open>The square of one sample, as a natural number.\<close>

definition sq :: "i16 \<Rightarrow> nat" where
  "sq s = nat (sint s * sint s)"

section \<open>The playback task and its control (audio\_handler.c)\<close>

text \<open>The draining loop \<open>while (xQueueReceive(queue, &dummy, 0) == pdTRUE) cleared_count++\<close>.\<close>

function queue_drain :: "'a queue_t \<Rightarrow> nat \<Rightarrow> 'a queue_t \<times> nat" where
  "queue_drain q cleared_count =
     (case xQueueReceive q of
        None \<Rightarrow> (q, cleared_count)
      | Some r \<Rightarrow> queue_drain (snd r) (cleared_count + 1))"
  by pat_completeness auto
termination
  by (relation "measure (\<lambda>(q, c). length (items q))")
     (auto simp add: xQueueReceive_def split: list.splits)

declare queue_drain.simps [simp del]

text \<open>
  \<open>audio_playback_queue_start\<close>. \<open>None\<close> is the kernel assertion on a null queue handle.
  Creating the task sets its handle and puts it at its entry.
\<close>

definition audio_playback_queue_start :: "playback \<Rightarrow> playback option" where
  "audio_playback_queue_start s =
     (if queue_playback_active s
      then Some (s\<lparr>warnings := warnings s @ [LogPlaybackAlreadyActive]\<rparr>)
      else case audio_playback_queue s of
             None \<Rightarrow> None
           | Some q \<Rightarrow>
               Some (s\<lparr>audio_playback_queue := Some (fst (queue_drain q 0)),
                       queue_playback_active := True,
                       queue_playback_task_handle := True,
                       task_pc := TaskEntry\<rparr>))"

text \<open>
  \<open>audio_playback_queue_stop\<close> blocks its caller until the task has cleared its handle,
  so it is two steps: the request (the early return, or clearing the flag and starting
  to wait), and a poll of the wait loop, which purges the queue and returns once the
  handle is null.
\<close>

definition audio_playback_queue_stop_request :: "playback \<Rightarrow> playback" where
  "audio_playback_queue_stop_request s =
     (if \<not> queue_playback_active s then s
      else s\<lparr>queue_playback_active := False, stop_waiting := True\<rparr>)"

definition audio_playback_queue_stop_poll :: "playback \<Rightarrow> playback" where
  "audio_playback_queue_stop_poll s =
     (if stop_waiting s \<and> \<not> queue_playback_task_handle s
      then s\<lparr>audio_playback_queue := map_option (\<lambda>q. fst (queue_drain q 0)) (audio_playback_queue s),
             stop_waiting := False\<rparr>
      else s)"

definition MIN_PREBUFFER_CHUNKS :: nat where "MIN_PREBUFFER_CHUNKS = 10"

text \<open>
  The end of \<open>queue_playback_task\<close>, after its loops: the silence flush (when the
  allocation succeeds), disabling the output, clearing the handle, deleting the task.
\<close>

definition task_exit :: "bool \<Rightarrow> playback \<Rightarrow> playback" where
  "task_exit calloc_ok s =
     (let s1 = (if calloc_ok then s\<lparr>events := events s @ [I2sWriteSilence 8192]\<rparr>
                else s\<lparr>warnings := warnings s @ [LogNoSilenceBuffer]\<rparr>)
      in s1\<lparr>events := events s1 @ [I2sDisable], queue_playback_task_handle := False,
             task_pc := TaskDeleted\<rparr>)"

text \<open>
  One scheduling step of \<open>queue_playback_task\<close>: the entry code, or one test of a loop
  condition with the loop body that follows. \<open>ret\<close> is what \<open>i2s_channel_enable\<close>
  returns and \<open>calloc_ok\<close> whether the silence buffer can be allocated. A step of the
  playing loop on an empty queue is the expiry of the 500 ms receive timeout.
\<close>

definition queue_playback_task_step :: "esp_err_t \<Rightarrow> bool \<Rightarrow> playback \<Rightarrow> playback" where
  "queue_playback_task_step ret calloc_ok s =
     (case task_pc s of
        TaskEntry \<Rightarrow>
          let s1 = s\<lparr>total_chunks_played := 0, queue_underrun_count := 0,
                      events := events s @ [I2sEnable ret]\<rparr>
          in if ret \<noteq> ESP_OK \<and> ret \<noteq> ESP_ERR_INVALID_STATE
             then s1\<lparr>queue_playback_active := False, task_pc := TaskDeleted\<rparr>
             else s1\<lparr>task_pc := PreBuffering\<rparr>
      | PreBuffering \<Rightarrow>
          (case audio_playback_queue s of
             None \<Rightarrow> s\<lparr>task_pc := TaskAborted\<rparr>
           | Some q \<Rightarrow>
               if queue_playback_active s \<and> uxQueueMessagesWaiting q < MIN_PREBUFFER_CHUNKS
               then s\<lparr>events := events s @ [TaskDelay 50]\<rparr>
               else s\<lparr>task_pc := Playing\<rparr>)
      | Playing \<Rightarrow>
          if queue_playback_active s then
            (case audio_playback_queue s of
               None \<Rightarrow> s\<lparr>task_pc := TaskAborted\<rparr>
             | Some q \<Rightarrow>
                 (case xQueueReceive q of
                    Some r \<Rightarrow>
                      let chunk = fst r;
                          s1 = s\<lparr>audio_playback_queue := Some (snd r),
                                  total_chunks_played := total_chunks_played s + 1,
                                  events := events s @ [I2sWriteChunk chunk]\<rparr>
                      in if is_last_chunk chunk
                         then task_exit calloc_ok
                                (s1\<lparr>events := events s1 @ [TaskDelay 220, UdpSendPlaybackComplete],
                                    total_chunks_played := 0, queue_underrun_count := 0,
                                    queue_playback_active := False\<rparr>)
                         else s1
                  | None \<Rightarrow>
                      if queue_playback_active s \<and> total_chunks_played s > 0
                      then s\<lparr>queue_underrun_count := queue_underrun_count s + 1,
                             warnings := warnings s @ [LogUnderrun (queue_underrun_count s + 1)],
                             events := events s @ [I2sWriteSilence 1440]\<rparr>
                      else s))
          else task_exit calloc_ok s
      | _ \<Rightarrow> s)"

text \<open>
  The playback state is shared by the receive task (pushes), the state machine (stop)
  and the playback task. A run is an interleaving of their steps.
\<close>

datatype action =
  Push "u8 list" nat u32 bool
  | StopRequest
  | StopPoll
  | TaskStep esp_err_t bool

fun playback_step :: "action \<Rightarrow> playback \<Rightarrow> playback" where
  "playback_step (Push dat len seq is_last) s = snd (audio_playback_queue_push dat len seq is_last s)"
| "playback_step StopRequest s = audio_playback_queue_stop_request s"
| "playback_step StopPoll s = audio_playback_queue_stop_poll s"
| "playback_step (TaskStep ret calloc_ok) s = queue_playback_task_step ret calloc_ok s"

fun playback_run :: "action list \<Rightarrow> playback \<Rightarrow> playback" where
  "playback_run [] s = s"
| "playback_run (a # as) s = playback_run as (playback_step a s)"

text \<open>The chunks written to the output device, in order.\<close>

fun chunks_written :: "playback_event list \<Rightarrow> audio_chunk_t list" where
  "chunks_written [] = []"
| "chunks_written (I2sWriteChunk c # es) = c # chunks_written es"
| "chunks_written (_ # es) = chunks_written es"

text \<open>\<open>audio_playback_queue_space\<close>: the free slots, 0 before the queue exists.\<close>

definition audio_playback_queue_space :: "playback \<Rightarrow> nat" where
  "audio_playback_queue_space s =
     (case audio_playback_queue s of None \<Rightarrow> 0 | Some q \<Rightarrow> uxQueueSpacesAvailable q)"

text \<open>The depth of the jitter buffer (0 before the queue exists).\<close>

definition queue_depth :: "playback \<Rightarrow> nat" where
  "queue_depth s = (case audio_playback_queue s of None \<Rightarrow> 0 | Some q \<Rightarrow> uxQueueMessagesWaiting q)"

text \<open>Pushing a list of blocks in order, collecting what each push returns.\<close>

fun push_all ::
  "(u8 list \<times> nat \<times> u32 \<times> bool) list \<Rightarrow> playback \<Rightarrow> esp_err_t list \<times> playback" where
  "push_all [] s = ([], s)"
| "push_all (b # bs) s =
     (let r = audio_playback_queue_push (fst b) (fst (snd b)) (fst (snd (snd b))) (snd (snd (snd b))) s;
          rs = push_all bs (snd r)
      in (fst r # fst rs, snd rs))"

text \<open>The chunk that a push stores for a block.\<close>

definition chunk_of :: "u8 list \<times> nat \<times> u32 \<times> bool \<Rightarrow> audio_chunk_t" where
  "chunk_of b = \<lparr>data = take (min 1440 (fst (snd b))) (fst b),
                 length_bytes = min 1440 (fst (snd b)),
                 sequence = fst (snd (snd b)), is_last_chunk = snd (snd (snd b))\<rparr>"

text \<open>
  The playback state when a session has just been started on the freshly created
  queue: what \<open>audio_playback_queue_start\<close> returns after \<open>audio_playback_queue_init\<close>.
\<close>

definition session_start :: playback where
  "session_start = \<lparr>audio_playback_queue = Some \<lparr>items = [], uxLength = AUDIO_QUEUE_LENGTH\<rparr>,
     queue_playback_task_handle = True, queue_playback_active = True,
     total_chunks_played = 0, queue_underrun_count = 0, task_pc = TaskEntry,
     stop_waiting = False, events = [], warnings = []\<rparr>"

text \<open>The sequence numbers of the dropped chunks, as the queue-full warnings name them.\<close>

fun drops :: "log_t list \<Rightarrow> u32 list" where
  "drops [] = []"
| "drops (LogQueueFull seq # ls) = seq # drops ls"
| "drops (_ # ls) = drops ls"

section \<open>The voice-activity state machine and the capture loop (main.c)\<close>

definition RMS_THRESHOLD_NORMAL :: u32 where "RMS_THRESHOLD_NORMAL = 100"
definition RMS_THRESHOLD_INTERRUPT :: u32 where "RMS_THRESHOLD_INTERRUPT = 400"

text \<open>
  The calls that \<open>main.c\<close> makes into the playback and network modules, in order.
  \<open>audio_playback_queue_stop\<close> blocks on another task and the senders talk to the
  socket, so a call is recorded as an event, with its arguments.
\<close>

datatype effect =
  PlaybackQueueStop
  | PlaybackQueueStart
  | UdpSendInterruptSignal
  | UdpSendAudioPacket "u8 list" u32 u32
  | VTaskDelay nat

text \<open>
  \<open>set_voice_state(new_state)\<close> on the global \<open>current_state\<close>, under the mutex: the new
  value of \<open>current_state\<close> and the calls made.
\<close>

definition set_voice_state :: "voice_state_t \<Rightarrow> voice_state_t \<Rightarrow> voice_state_t \<times> effect list" where
  "set_voice_state new_state current_state =
     (if current_state \<noteq> new_state then
        (let old_state = current_state
         in (new_state,
             case new_state of
               STATE_IDLE \<Rightarrow> [PlaybackQueueStop]
             | STATE_USER_SPEAKING \<Rightarrow>
                 if old_state = STATE_AI_SPEAKING then [PlaybackQueueStop, UdpSendInterruptSignal]
                 else []
             | STATE_AI_SPEAKING \<Rightarrow> [PlaybackQueueStart]))
      else (current_state, []))"

text \<open>
  The state of \<open>voice_assistant_task\<close>: the global \<open>current_state\<close> and the locals
  \<open>silence_start\<close> and \<open>sequence\<close>.
\<close>

record voice_assistant =
  current_state :: voice_state_t
  silence_start :: int
  sequence_va :: u32

text \<open>\<open>(int16_t * )chunk_buffer\<close>: the buffer read as little-endian 16-bit samples.\<close>

fun samples_of :: "u8 list \<Rightarrow> i16 list" where
  "samples_of (lo # hi # rest) = (ucast lo OR push_bit 8 (ucast hi)) # samples_of rest"
| "samples_of _ = []"

text \<open>\<open>udp_send_audio_packet(chunk_buffer, bytes_captured, sequence++)\<close>; its result is not used.\<close>

definition send_chunk :: "u8 list \<Rightarrow> u32 \<Rightarrow> voice_assistant \<Rightarrow> voice_assistant \<times> effect list" where
  "send_chunk chunk_buffer bytes_captured v =
     (v\<lparr>sequence_va := sequence_va v + 1\<rparr>,
      [UdpSendAudioPacket chunk_buffer bytes_captured (sequence_va v)])"

text \<open>
  One iteration of the loop of \<open>voice_assistant_task\<close>. \<open>ret\<close>, \<open>chunk_buffer\<close> and
  \<open>bytes_captured\<close> are what \<open>audio_capture_chunk_to_buffer\<close> leaves, \<open>now\<close> is the
  reading of \<open>get_time_ms()\<close> in this iteration (every path reads the clock at most
  once). The iteration is taken as atomic with respect to the receive task. \<open>None\<close> is
  a division by zero inside \<open>audio_calculate_rms\<close>.
\<close>

definition voice_assistant_iteration ::
  "esp_err_t \<Rightarrow> u8 list \<Rightarrow> u32 \<Rightarrow> int \<Rightarrow> voice_assistant
     \<Rightarrow> (voice_assistant \<times> effect list) option" where
  "voice_assistant_iteration ret chunk_buffer bytes_captured now v =
     (if ret \<noteq> ESP_OK then Some (v, [VTaskDelay 40])
      else
        case audio_calculate_rms (Some (samples_of chunk_buffer)) (bytes_captured div 2) of
          None \<Rightarrow> None
        | Some rms \<Rightarrow>
            Some (case current_state v of
              STATE_IDLE \<Rightarrow>
                if rms > RMS_THRESHOLD_NORMAL then
                  let r = set_voice_state STATE_USER_SPEAKING (current_state v);
                      v1 = v\<lparr>current_state := fst r, silence_start := 0, sequence_va := 0\<rparr>;
                      r1 = send_chunk chunk_buffer bytes_captured v1
                  in (fst r1, snd r @ snd r1)
                else (v, [])
            | STATE_USER_SPEAKING \<Rightarrow>
                if rms < AUDIO_RMS_STOP_THRESHOLD then
                  if silence_start v = 0 then
                    send_chunk chunk_buffer bytes_captured (v\<lparr>silence_start := now\<rparr>)
                  else if now - silence_start v > SILENCE_DURATION_MS then
                    let r = set_voice_state STATE_IDLE (current_state v)
                    in (v\<lparr>current_state := fst r, silence_start := 0\<rparr>, snd r)
                  else send_chunk chunk_buffer bytes_captured v
                else send_chunk chunk_buffer bytes_captured (v\<lparr>silence_start := 0\<rparr>)
            | STATE_AI_SPEAKING \<Rightarrow>
                if rms > RMS_THRESHOLD_INTERRUPT then
                  let r = set_voice_state STATE_USER_SPEAKING (current_state v);
                      v1 = v\<lparr>current_state := fst r, sequence_va := 0\<rparr>;
                      r1 = send_chunk chunk_buffer bytes_captured v1
                  in (fst r1, snd r @ snd r1)
                else (v, [])))"

text \<open>
  A run of the loop: one capture per iteration, with what \<open>audio_capture_chunk_to_buffer\<close>
  left and the clock reading of that iteration. The calls of the iterations follow one
  another.
\<close>

record capture =
  cap_ret :: esp_err_t
  cap_buffer :: "u8 list"
  cap_bytes :: u32
  cap_now :: int

fun voice_assistant_run ::
  "capture list \<Rightarrow> voice_assistant \<Rightarrow> (voice_assistant \<times> effect list) option" where
  "voice_assistant_run [] v = Some (v, [])"
| "voice_assistant_run (c # cs) v =
     (case voice_assistant_iteration (cap_ret c) (cap_buffer c) (cap_bytes c) (cap_now c) v of
        None \<Rightarrow> None
      | Some r \<Rightarrow>
          (case voice_assistant_run cs (fst r) of
             None \<Rightarrow> None
           | Some r1 \<Rightarrow> Some (fst r1, snd r @ snd r1)))"

text \<open>A capture that succeeded and whose loudness is below the stop-compare threshold.\<close>

definition quiet :: "capture \<Rightarrow> bool" where
  "quiet c =
     (cap_ret c = ESP_OK \<and>
      (case audio_calculate_rms (Some (samples_of (cap_buffer c))) (cap_bytes c div 2) of
         None \<Rightarrow> False
       | Some rms \<Rightarrow> rms < AUDIO_RMS_STOP_THRESHOLD))"

text \<open>The audio packets of a list of captures, numbered from \<open>seq\<close> on.\<close>

fun sends :: "u32 \<Rightarrow> capture list \<Rightarrow> effect list" where
  "sends seq [] = []"
| "sends seq (c # cs) = UdpSendAudioPacket (cap_buffer c) (cap_bytes c) seq # sends (seq + 1) cs"

text \<open>A captured block of 960 equal samples (1920 bytes), low byte first.\<close>

definition constant_block :: "u8 \<Rightarrow> u8 \<Rightarrow> u8 list" where
  "constant_block lo hi = concat (replicate 960 [lo, hi])"







section \<open>Properties of the receive path\<close>

lemma read_u32_bytes:
  "read_u32 (ty # ucast seq # ucast (drop_bit 8 seq) # ucast (drop_bit 16 seq)
       # ucast (drop_bit 24 seq) # rest) 1 = seq"
  unfolding read_u32_def
  apply simp
  apply (rule bit_word_eqI)
  subgoal for n
    by (cases "n < 8"; cases "n < 16"; cases "n < 24") (auto simp add: bit_simps)
  done

lemma read_u32_bytes_Suc [simp]:
  "read_u32 (ty # ucast seq # ucast (drop_bit 8 seq) # ucast (drop_bit 16 seq)
       # ucast (drop_bit 24 seq) # rest) (Suc 0) = seq"
  using read_u32_bytes [of ty seq rest] by simp

lemma take_audio_msg:
  "take RX_BUFFER_SIZE (audio_msg ty seq payload) =
     ty # ucast seq # ucast (drop_bit 8 seq) # ucast (drop_bit 16 seq) # ucast (drop_bit 24 seq)
        # take 2043 payload"
  by (simp add: RX_BUFFER_SIZE_def audio_msg_def take_Cons')

lemma payload_len:
  "(if 1440 < min (length payload) 2043 then 1440 else min (length payload) (2043::nat))
     = min 1440 (length payload)"
  by (simp add: min_def)

lemma receive_play_audio:
  "fst (udp_receive_datagram (audio_msg UDP_MSG_PLAY_AUDIO seq payload) (u, p)) =
     (let u1 = loss_detection seq (u\<lparr>packets_received := packets_received u + 1\<rparr>)
      in if payload = [] then u1\<lparr>udp_warnings := udp_warnings u1 @ [LogEmptyPacket seq]\<rparr>
         else if 1440 < length payload
         then u1\<lparr>udp_warnings := udp_warnings u1 @ [LogOversized seq (min (length payload) 2043)]\<rparr>
         else u1)"
  unfolding udp_receive_datagram_def take_audio_msg
  by (simp add: Let_def UDP_MSG_PLAY_AUDIO_def)

lemma receive_play_audio_last:
  "fst (udp_receive_datagram (audio_msg UDP_MSG_PLAY_AUDIO_LAST seq payload) (u, p)) =
     (let u1 = loss_detection seq (u\<lparr>packets_received := packets_received u + 1\<rparr>)
      in if payload = [] then u1\<lparr>udp_warnings := udp_warnings u1 @ [LogEmptyPacket seq]\<rparr>
         else if 1440 < length payload
         then u1\<lparr>udp_warnings := udp_warnings u1 @ [LogOversized seq (min (length payload) 2043)],
                  last_received_seq := 0, packets_lost := 0\<rparr>
         else u1\<lparr>last_received_seq := 0, packets_lost := 0\<rparr>)"
  unfolding udp_receive_datagram_def take_audio_msg
  by (simp add: Let_def UDP_MSG_PLAY_AUDIO_def UDP_MSG_PLAY_AUDIO_LAST_def)

lemma receive_play_audio_last_playback:
  "fst (snd (udp_receive_datagram (audio_msg UDP_MSG_PLAY_AUDIO_LAST seq payload) (u, p))) =
     (if payload = [] then p
      else snd (audio_playback_queue_push (take 2043 payload) (min 1440 (length payload)) seq True p))"
  unfolding udp_receive_datagram_def take_audio_msg
  by (simp add: Let_def UDP_MSG_PLAY_AUDIO_def UDP_MSG_PLAY_AUDIO_LAST_def drop_Cons' payload_len)

lemma loss_detection_last [simp]: "last_received_seq (loss_detection seq u) = seq"
  by (simp add: loss_detection_def Let_def)

lemma loss_detection_lost:
  "packets_lost (loss_detection seq u) =
     packets_lost u + (if seq \<noteq> 0 \<and> last_received_seq u \<noteq> 0 \<and> seq \<noteq> last_received_seq u + 1
                       then seq - last_received_seq u - 1 else 0)"
  by (simp add: loss_detection_def Let_def word_greater_zero_iff)

lemma play_audio_last_seq:
  "last_received_seq (fst (udp_receive_datagram (audio_msg UDP_MSG_PLAY_AUDIO seq payload) (u, p))) = seq"
  by (simp add: receive_play_audio Let_def)

lemma play_audio_lost:
  "packets_lost (fst (udp_receive_datagram (audio_msg UDP_MSG_PLAY_AUDIO seq payload) (u, p))) =
     packets_lost u + (if seq \<noteq> 0 \<and> last_received_seq u \<noteq> 0 \<and> seq \<noteq> last_received_seq u + 1
                       then seq - last_received_seq u - 1 else 0)"
  by (simp add: receive_play_audio Let_def loss_detection_lost)

text \<open>
  Claim C4. With the tracker at \<open>last_received_seq = 0\<close> and no loss recorded, the
  audio messages with sequences 5, 6, 8, 9 (any payloads) leave a recorded loss of
  exactly 1 and \<open>last_received_seq = 9\<close>. For every audio message, the tracker ends at
  the received sequence, and the loss counter grows by \<open>seq - last - 1\<close> exactly
  when \<open>seq \<noteq> last + 1\<close> and both are non-zero (and not at all otherwise).
\<close>

theorem loss_tracker_gap:
  "(let u0 = u\<lparr>last_received_seq := 0, packets_lost := 0\<rparr>;
        r = fst (udp_receive_all
               [audio_msg UDP_MSG_PLAY_AUDIO 5 p1, audio_msg UDP_MSG_PLAY_AUDIO 6 p2,
                audio_msg UDP_MSG_PLAY_AUDIO 8 p3, audio_msg UDP_MSG_PLAY_AUDIO 9 p4] (u0, p))
    in packets_lost r = 1 \<and> last_received_seq r = 9)
   \<and> (let r = fst (udp_receive_datagram (audio_msg UDP_MSG_PLAY_AUDIO seq payload) (u, p))
      in last_received_seq r = seq
       \<and> packets_lost r = packets_lost u +
           (if seq \<noteq> last_received_seq u + 1 \<and> seq \<noteq> 0 \<and> last_received_seq u \<noteq> 0
            then seq - last_received_seq u - 1 else 0))"
  by (simp add: Let_def play_audio_last_seq play_audio_lost)

lemma wrap_gap:
  fixes seq l :: u32
  assumes "seq \<le> l"
  shows "unat (seq - l - 1) = 2 ^ 32 - 1 - (unat l - unat seq)"
proof -
  have le: "uint seq \<le> uint l"
    using assms by (simp add: word_le_def)
  have b: "uint l < 2 ^ 32"
    using uint_lt2p [of l] by simp
  define x where "x = uint seq - uint l - 1"
  have "(x + 2 ^ 32) mod 2 ^ 32 = x + 2 ^ 32"
  proof (rule mod_pos_pos_trivial)
    show "0 \<le> x + 2 ^ 32" using b uint_ge_0 [of seq] unfolding x_def by linarith
    show "x + 2 ^ 32 < 2 ^ 32" using le unfolding x_def by linarith
  qed
  moreover have "(x + 2 ^ 32) mod 2 ^ 32 = x mod 2 ^ 32"
    by (rule mod_add_self2)
  ultimately have m: "(uint seq - uint l - 1) mod 2 ^ 32 = uint seq - uint l - 1 + 2 ^ 32"
    unfolding x_def by linarith
  have "uint (seq - l - 1) = (uint seq - uint l - 1) mod 2 ^ 32"
    by (simp add: uint_word_ariths mod_diff_left_eq)
  then have "uint (seq - l - 1) = uint seq - uint l - 1 + 2 ^ 32"
    using m by simp
  then have h: "int (unat (seq - l - 1)) = int (unat seq) - int (unat l) - 1 + 2 ^ 32"
    unfolding uint_nat .
  have fin: "g = 2 ^ 32 - 1 - (c - a)"
    if "int g = int a - int c - 1 + 2 ^ 32" and "a \<le> c" and "c < 2 ^ 32" for g a c :: nat
    using that by simp
  have "unat seq \<le> unat l"
    using assms by (simp add: word_le_nat_alt)
  moreover have "unat l < 2 ^ 32"
    using unsigned_less [of l] by simp
  ultimately show ?thesis using h by (intro fin)
qed

text \<open>
  Claim C10. The gap arithmetic is unsigned 32-bit. When an audio message carries a
  non-zero sequence that is not above the stored non-zero \<open>last_received_seq\<close>
  (a duplicate or a reordered packet), the value \<open>(seq - last - 1) mod 2^32\<close> is added
  to \<open>packets_lost\<close>; it is \<open>2^32 - 1 - (last - seq)\<close>, so a packet that arrives one
  place late adds \<open>2^32 - 2\<close>.
\<close>

theorem loss_gap_wraps:
  assumes "seq \<noteq> 0" and "last_received_seq u \<noteq> 0" and "seq \<le> last_received_seq u"
  shows "packets_lost (fst (udp_receive_datagram (audio_msg UDP_MSG_PLAY_AUDIO seq payload) (u, p)))
           = packets_lost u + (seq - last_received_seq u - 1)
       \<and> unat (seq - last_received_seq u - 1)
           = 2 ^ 32 - 1 - (unat (last_received_seq u) - unat seq)
       \<and> int (unat (seq - last_received_seq u - 1))
           = (uint seq - uint (last_received_seq u) - 1) mod 2 ^ 32"
proof -
  let ?l = "last_received_seq u"
  have ne: "seq \<noteq> ?l + 1"
    using assms by unat_arith
  have lost: "packets_lost (fst (udp_receive_datagram (audio_msg UDP_MSG_PLAY_AUDIO seq payload) (u, p)))
           = packets_lost u + (seq - ?l - 1)"
    using assms ne by (simp add: play_audio_lost)
  have u: "uint (seq - ?l - 1) = (uint seq - uint ?l - 1) mod 2 ^ 32"
    by (simp add: uint_word_ariths mod_diff_left_eq)
  have n: "unat (seq - ?l - 1) = 2 ^ 32 - 1 - (unat ?l - unat seq)"
    using assms(3) by (rule wrap_gap)
  have t: "int (unat (seq - ?l - 1)) = (uint seq - uint ?l - 1) mod 2 ^ 32"
    using u by simp
  show ?thesis using lost n t by blast
qed

theorem loss_gap_wraps_witness:
  "packets_lost (fst (udp_receive_datagram (audio_msg UDP_MSG_PLAY_AUDIO 7 [1, 2])
      (udp_statics\<lparr>last_received_seq := 8\<rparr>, playback_statics))) = 4294967294"
  using loss_gap_wraps [of 7 "udp_statics\<lparr>last_received_seq := 8\<rparr>" "[1, 2]" playback_statics]
  by (simp add: udp_statics_def)

text \<open>
  Claim C7, as stated, fails: a final-block message with an empty payload leaves the
  receive loop before the reset. With \<open>last_received_seq = 3\<close>, the empty final block
  with sequence 9 leaves \<open>last_received_seq = 9\<close> and \<open>packets_lost = 5\<close>.
\<close>

theorem last_empty_payload_no_reset:
  "last_received_seq (fst (udp_receive_datagram (audio_msg UDP_MSG_PLAY_AUDIO_LAST 9 [])
      (udp_statics\<lparr>last_received_seq := 3\<rparr>, playback_statics))) = 9
   \<and> packets_lost (fst (udp_receive_datagram (audio_msg UDP_MSG_PLAY_AUDIO_LAST 9 [])
      (udp_statics\<lparr>last_received_seq := 3\<rparr>, playback_statics))) = 5"
  by (simp add: receive_play_audio_last loss_detection_lost udp_statics_def Let_def)

text \<open>
  Claim C7, amended. For every final-block message that carries at least one payload
  byte, of any length (an oversized payload is cut to 1440 bytes and queued as the
  final chunk), \<open>last_received_seq\<close> and \<open>packets_lost\<close> are both zero afterwards.
\<close>

theorem last_block_resets_tracker:
  assumes "payload \<noteq> []"
  shows "last_received_seq (fst (udp_receive_datagram (audio_msg UDP_MSG_PLAY_AUDIO_LAST seq payload) (u, p))) = 0
    \<and> packets_lost (fst (udp_receive_datagram (audio_msg UDP_MSG_PLAY_AUDIO_LAST seq payload) (u, p))) = 0
    \<and> fst (snd (udp_receive_datagram (audio_msg UDP_MSG_PLAY_AUDIO_LAST seq payload) (u, p)))
         = snd (audio_playback_queue_push (take 2043 payload) (min 1440 (length payload)) seq True p)"
proof -
  have "fst (snd (udp_receive_datagram (audio_msg UDP_MSG_PLAY_AUDIO_LAST seq payload) (u, p)))
         = snd (audio_playback_queue_push (take 2043 payload) (min 1440 (length payload)) seq True p)"
    using assms by (simp add: receive_play_audio_last_playback)
  then show ?thesis using assms by (simp add: receive_play_audio_last Let_def)
qed

theorem last_block_resets_tracker_witness:
  "last_received_seq (fst (udp_receive_datagram (audio_msg UDP_MSG_PLAY_AUDIO_LAST 9 [1, 2])
      (udp_statics\<lparr>last_received_seq := 3\<rparr>, playback_statics))) = 0
   \<and> packets_lost (fst (udp_receive_datagram (audio_msg UDP_MSG_PLAY_AUDIO_LAST 9 [1, 2])
      (udp_statics\<lparr>last_received_seq := 3\<rparr>, playback_statics))) = 0"
  using last_block_resets_tracker [of "[1, 2]" 9 "udp_statics\<lparr>last_received_seq := 3\<rparr>" playback_statics]
  by simp

section \<open>Properties of the loudness measure\<close>

lemma sint16_bounds: "- 32768 \<le> sint (s :: i16)" "sint (s :: i16) \<le> 32767"
  using sint_ge [of s] sint_lt [of s] by simp_all

lemma sq16_bound: "(sint (s :: i16))\<^sup>2 \<le> 2 ^ 30"
proof -
  have "\<bar>sint s\<bar> \<le> 2 ^ 15" using sint16_bounds [of s] by simp
  then have "\<bar>sint s\<bar>\<^sup>2 \<le> (2 ^ 15)\<^sup>2" by (intro power_mono) simp_all
  then show ?thesis by simp
qed

lemma sint_scast16: "sint (scast (s :: i16) :: 32 word) = sint s"
  by (rule sint_up_scast) (simp add: is_up)

lemma sq16_bound': "sint (s :: i16) * sint s \<le> 1073741824"
  using sq16_bound [of s] by (simp add: power2_eq_square)

lemma sint_product32:
  "sint ((scast (s :: i16) :: 32 word) * scast s) = sint s * sint s"
proof -
  have "sint ((scast s :: 32 word) * scast s)
          = signed_take_bit 31 (sint (scast s :: 32 word) * sint (scast s :: 32 word))"
    by (simp only: sint_word_ariths len_of_numeral_defs) simp
  also have "\<dots> = signed_take_bit 31 (sint s * sint s)"
    by (simp only: sint_scast16)
  also have "\<dots> = sint s * sint s"
  proof -
    define k where "k = sint s * sint s"
    have "0 \<le> k" by (simp add: k_def)
    moreover have "k \<le> 1073741824" unfolding k_def by (rule sq16_bound')
    ultimately have "signed_take_bit 31 k = k"
      by (intro signed_take_bit_int_eq_self) simp_all
    then show ?thesis by (simp only: k_def)
  qed
  finally show ?thesis .
qed


lemma uint_square_sample: "uint (square_sample s) = sint s * sint s"
proof -
  define w where "w = (scast s :: 32 word) * scast s"
  have sw: "sint w = sint s * sint s"
    unfolding w_def by (rule sint_product32)
  have "square_sample s = (scast w :: u64)"
    by (simp add: square_sample_def Let_def w_def)
  also have "\<dots> = word_of_int (sint w)"
    by (rule scast_eq)
  finally have "uint (square_sample s) = take_bit 64 (sint w)"
    by (simp only: uint_word_of_int_eq len_of_numeral_defs) simp
  also have "\<dots> = sint w"
  proof -
    have "0 \<le> sint w" by (simp add: sw)
    moreover have "sint w \<le> 1073741824" unfolding sw by (rule sq16_bound')
    ultimately show ?thesis by (intro take_bit_int_eq_self) simp_all
  qed
  finally show ?thesis by (simp only: sw)
qed

lemma unat_square_sample: "unat (square_sample s) = nat (sint s * sint s)"
  using uint_square_sample [of s] by (simp add: unat_eq_nat_uint)


lemma sq_le: "sq s \<le> 1073741824"
  using sq16_bound' [of s] by (simp add: sq_def)

lemma sum_list_sq_le: "sum_list (map sq xs) \<le> length xs * 1073741824"
  by (induction xs) (use sq_le in \<open>auto simp add: add_le_mono\<close>)

lemma unat_sum_squares:
  "unat acc + sum_list (map sq xs) < 2 ^ 64 \<Longrightarrow>
     unat (sum_squares xs acc) = unat acc + sum_list (map sq xs)"
proof (induction xs arbitrary: acc)
  case Nil
  then show ?case by simp
next
  case (Cons s ss)
  have step: "unat (acc + square_sample s) = unat acc + sq s"
  proof -
    have "unat acc + unat (square_sample s) < 2 ^ 64"
      using Cons.prems by (simp add: unat_square_sample sq_def)
    then have "unat (acc + square_sample s) = unat acc + unat (square_sample s)"
      by (simp add: unat_add_lem [THEN iffD1])
    then show ?thesis by (simp add: unat_square_sample sq_def)
  qed
  have "unat (acc + square_sample s) + sum_list (map sq ss) < 2 ^ 64"
    using Cons.prems by (simp add: step)
  then have "unat (sum_squares ss (acc + square_sample s))
               = unat (acc + square_sample s) + sum_list (map sq ss)"
    by (rule Cons.IH)
  then show ?case by (simp add: step)
qed

lemma two_ab_le:
  fixes a b :: nat
  shows "2 * (a * b) \<le> a * a + b * b"
proof -
  have "(0::int) \<le> (int a - int b) * (int a - int b)" by simp
  then have "2 * (int a * int b) \<le> int a * int a + int b * int b"
    by (simp add: algebra_simps)
  then have "int (2 * (a * b)) \<le> int (a * a + b * b)" by simp
  then show ?thesis by (rule of_nat_le_iff [THEN iffD1])
qed

lemma newton_upper:
  fixes x m :: nat
  assumes "0 < x"
  shows "m < ((x + m div x) div 2 + 1)\<^sup>2"
proof -
  define q where "q = m div x"
  define y where "y = (x + q) div 2"
  have "m < x * q + x"
    using assms unfolding q_def by (metis add.commute dividend_less_times_div mult.commute)
  then have m: "m < x * (q + 1)" by simp
  have "x + q + 1 \<le> 2 * (y + 1)"
    unfolding y_def by presburger
  then have "(x + q + 1)\<^sup>2 \<le> (2 * (y + 1))\<^sup>2"
    by (rule power_mono) simp
  then have a: "(x + (q + 1)) * (x + (q + 1)) \<le> 4 * ((y + 1) * (y + 1))"
    by (simp add: power2_eq_square algebra_simps)
  have "(x + (q + 1)) * (x + (q + 1)) = (x * x + (q + 1) * (q + 1)) + 2 * (x * (q + 1))"
    by (simp add: algebra_simps)
  then have b: "4 * (x * (q + 1)) \<le> (x + (q + 1)) * (x + (q + 1))"
    using two_ab_le [of x "q + 1"] by linarith
  from a b have "4 * (x * (q + 1)) \<le> 4 * ((y + 1) * (y + 1))"
    by (rule le_trans [rotated])
  then have "x * (q + 1) \<le> (y + 1) * (y + 1)" by simp
  with m have "m < (y + 1) * (y + 1)" by linarith
  then show ?thesis unfolding y_def q_def by (simp add: power2_eq_square)
qed

lemma newton_stop:
  fixes x m :: nat
  assumes "0 < x" and "\<not> (x + m div x) div 2 < x"
  shows "x * x \<le> m"
proof -
  define q where "q = m div x"
  have "\<not> (x + q) div 2 < x" using assms(2) by (simp add: q_def)
  then have "x \<le> q" by presburger
  then have "x * x \<le> x * (m div x)" by (simp add: q_def)
  also have "\<dots> \<le> m" by simp
  finally show ?thesis .
qed

lemma newton_pos:
  fixes x m :: nat
  assumes "0 < x" "0 < m"
  shows "0 < (x + m div x) div 2"
proof -
  define q where "q = m div x"
  have "2 \<le> x + q"
  proof (cases "x \<le> m")
    case True
    then have "1 \<le> q" using assms(1) by (simp add: q_def div_greater_zero_iff Suc_le_eq)
    then show ?thesis using assms(1) by linarith
  next
    case False
    then show ?thesis using assms(2) by linarith
  qed
  then have "0 < (x + q) div 2" by presburger
  then show ?thesis by (simp add: q_def)
qed

lemma unat_newton_step:
  fixes mean y :: u32
  assumes "unat y \<le> unat mean" and "unat mean \<le> 1073741824"
  shows "unat ((y + mean div y) div 2) = (unat y + unat mean div unat y) div 2"
proof -
  have "unat mean div unat y \<le> unat mean" by simp
  then have "unat y + unat mean div unat y < 4294967296"
    using assms by linarith
  then have "unat y + unat (mean div y) < 2 ^ 32"
    by (simp add: unat_div)
  then have "unat (y + mean div y) = unat y + unat (mean div y)"
    by (simp add: unat_add_lem [THEN iffD1])
  then show ?thesis by (simp add: unat_div)
qed

lemma babylonian_correct:
  assumes "0 < unat x" and "unat x \<le> unat mean" and "unat mean \<le> 1073741824"
    and "unat mean < (unat x + 1)\<^sup>2"
    and "unat y = (unat x + unat mean div unat x) div 2"
  shows "\<exists>r. babylonian mean x y = Some r \<and> unat r * unat r \<le> unat mean
              \<and> unat mean < (unat r + 1)\<^sup>2"
  using assms
proof (induction mean x y rule: babylonian.induct)
  case (1 mean x y)
  have mpos: "0 < unat mean" using "1.prems"(1,2) by linarith
  show ?case
  proof (cases "y < x")
    case True
    have ylt: "unat y < unat x" using True by (simp add: word_less_nat_alt)
    have ypos: "0 < unat y"
      using newton_pos [OF "1.prems"(1) mpos] "1.prems"(5) by simp
    then have ynz: "y \<noteq> 0" by (auto simp add: unat_gt_0)
    have ylem: "unat y \<le> unat mean" using ylt "1.prems"(2) by linarith
    have upper: "unat mean < (unat y + 1)\<^sup>2"
      using newton_upper [OF "1.prems"(1), of "unat mean"] "1.prems"(5) by simp
    have step: "unat ((y + mean div y) div 2) = (unat y + unat mean div unat y) div 2"
      using ylem "1.prems"(3) by (rule unat_newton_step)
    have "\<exists>r. babylonian mean y ((y + mean div y) div 2) = Some r
            \<and> unat r * unat r \<le> unat mean \<and> unat mean < (unat r + 1)\<^sup>2"
      using True ynz ypos ylem "1.prems"(3) upper step by (rule "1.IH")
    moreover have "babylonian mean x y = babylonian mean y ((y + mean div y) div 2)"
      using True ynz by (subst babylonian.simps) simp
    ultimately show ?thesis by simp
  next
    case False
    then have "\<not> (unat x + unat mean div unat x) div 2 < unat x"
      using "1.prems"(5) by (simp add: word_less_nat_alt)
    then have "unat x * unat x \<le> unat mean"
      using "1.prems"(1) by (intro newton_stop)
    moreover have "babylonian mean x y = Some x"
      using False by (subst babylonian.simps) simp
    ultimately show ?thesis using "1.prems"(4) by simp
  qed
qed

lemma babylonian_start:
  fixes mean :: u32
  assumes "mean \<noteq> 0" and "unat mean \<le> 1073741824"
  shows "\<exists>r. babylonian mean mean ((mean + 1) div 2) = Some r \<and> unat r * unat r \<le> unat mean
              \<and> unat mean < (unat r + 1)\<^sup>2"
proof (rule babylonian_correct)
  show pos: "0 < unat mean" using assms(1) by (simp add: unat_gt_0)
  show "unat mean \<le> unat mean" by simp
  show "unat mean \<le> 1073741824" by (rule assms(2))
  show "unat mean < (unat mean + 1)\<^sup>2"
    by (simp add: power2_eq_square)
  have "unat mean + unat (1 :: u32) < 2 ^ 32" using assms(2) by simp
  then have "unat (mean + 1) = unat mean + 1"
    by (simp add: unat_add_lem [THEN iffD1])
  then show "unat ((mean + 1) div 2) = (unat mean + unat mean div unat mean) div 2"
    using pos by (simp add: unat_div)
qed


lemma sq_power2: "sq s = nat ((sint s)\<^sup>2)"
  by (simp add: sq_def power2_eq_square)

lemma mean_square_sq: "mean_square xs n = sum_list (map sq (take (unat n) xs)) div unat n"
proof -
  have "sq = (\<lambda>s. nat ((sint s)\<^sup>2))"
    by (rule ext) (rule sq_power2)
  then show ?thesis by (simp add: mean_square_def)
qed

lemma sum_take_bound:
  fixes n :: u32
  shows "sum_list (map sq (take (unat n) xs)) \<le> unat n * 1073741824"
proof -
  have "sum_list (map sq (take (unat n) xs)) \<le> length (take (unat n) xs) * 1073741824"
    by (rule sum_list_sq_le)
  also have "\<dots> \<le> unat n * 1073741824" by simp
  finally show ?thesis .
qed

lemma mean_square_le: "mean_square xs n \<le> 1073741824"
proof -
  have "sum_list (map sq (take (unat n) xs)) div unat n \<le> (unat n * 1073741824) div unat n"
    by (rule div_le_mono) (rule sum_take_bound)
  also have "\<dots> \<le> 1073741824"
    by (cases "unat n = 0") simp_all
  finally show ?thesis by (simp add: mean_square_sq)
qed

lemma unat_total:
  fixes n :: u32
  shows "unat (sum_squares (take (unat n) xs) 0) = sum_list (map sq (take (unat n) xs))"
proof -
  have "unat n < 4294967296" using unsigned_less [of n, where ?'a = nat] by simp
  then have "unat n * 1073741824 < 18446744073709551616" by linarith
  then have "sum_list (map sq (take (unat n) xs)) < 18446744073709551616"
    using sum_take_bound [of n xs] by linarith
  then have "unat (0 :: u64) + sum_list (map sq (take (unat n) xs)) < 2 ^ 64" by simp
  then have "unat (sum_squares (take (unat n) xs) 0)
               = unat (0 :: u64) + sum_list (map sq (take (unat n) xs))"
    by (rule unat_sum_squares)
  then show ?thesis by simp
qed

lemma unat_mean:
  fixes n :: u32
  shows "unat (ucast (sum_squares (take (unat n) xs) 0 div ucast n) :: u32) = mean_square xs n"
proof -
  define t where "t = sum_squares (take (unat n) xs) 0"
  have "unat n < 4294967296"
    using unsigned_less [of n, where ?'a = nat] by simp
  then have "unat n < 2 ^ 64" by simp
  then have cn: "unat (ucast n :: u64) = unat n"
    by (simp add: unsigned_ucast_eq take_bit_nat_eq_self)
  have d: "unat (t div ucast n) = mean_square xs n"
    by (simp add: unat_div cn t_def unat_total mean_square_sq)
  have "unat (t div ucast n) < 2 ^ 32"
    using mean_square_le [of xs n] by (simp add: d)
  then have "unat (ucast (t div ucast n) :: u32) = unat (t div ucast n)"
    by (simp add: unsigned_ucast_eq take_bit_nat_eq_self)
  then have "unat (ucast (t div ucast n) :: u32) = mean_square xs n"
    by (simp only: d)
  then show ?thesis by (simp only: t_def)
qed

lemma rms_spec:
  "\<exists>r. audio_calculate_rms (Some xs) n = Some r
       \<and> unat r * unat r \<le> mean_square xs n \<and> mean_square xs n < (unat r + 1)\<^sup>2"
proof (cases "n = 0")
  case True
  then show ?thesis by (simp add: audio_calculate_rms_def mean_square_def)
next
  case False
  define mean where "mean = (ucast (sum_squares (take (unat n) xs) 0 div ucast n) :: u32)"
  have um: "unat mean = mean_square xs n"
    unfolding mean_def by (rule unat_mean)
  show ?thesis
  proof (cases "mean = 0")
    case True
    then have "mean_square xs n = 0" using um by simp
    moreover have "audio_calculate_rms (Some xs) n = Some 0"
      using \<open>n \<noteq> 0\<close> True by (simp add: audio_calculate_rms_def Let_def mean_def)
    ultimately show ?thesis by simp
  next
    case nz: False
    have "unat mean \<le> 1073741824" using mean_square_le [of xs n] by (simp add: um)
    with nz have "\<exists>r. babylonian mean mean ((mean + 1) div 2) = Some r
        \<and> unat r * unat r \<le> unat mean \<and> unat mean < (unat r + 1)\<^sup>2"
      by (rule babylonian_start)
    moreover have "audio_calculate_rms (Some xs) n = babylonian mean mean ((mean + 1) div 2)"
      using \<open>n \<noteq> 0\<close> nz by (simp add: audio_calculate_rms_def Let_def mean_def)
    ultimately show ?thesis by (simp add: um)
  qed
qed

lemma mean_square_replicate:
  "n \<noteq> 0 \<Longrightarrow> mean_square (replicate (unat n) a) n = nat \<bar>sint a\<bar> * nat \<bar>sint a\<bar>"
proof -
  assume "n \<noteq> 0"
  then have "0 < unat n" by (simp add: unat_gt_0)
  moreover have "sq a = nat \<bar>sint a\<bar> * nat \<bar>sint a\<bar>"
    by (simp add: sq_def nat_mult_distrib [symmetric] abs_mult_self_eq del: nat_mult_distrib)
  ultimately show ?thesis
    by (simp add: mean_square_sq sum_list_replicate)
qed

lemma square_sandwich:
  fixes r k :: nat
  assumes "r * r \<le> k * k" and "k * k < (r + 1)\<^sup>2"
  shows "r = k"
proof -
  have "r \<le> k"
  proof (rule ccontr)
    assume "\<not> r \<le> k"
    then have "k + 1 \<le> r" by simp
    then have "(k + 1) * (k + 1) \<le> r * r" by (intro mult_le_mono)
    with assms(1) show False by simp
  qed
  moreover have "k < r + 1"
  proof (rule ccontr)
    assume "\<not> k < r + 1"
    then have "r + 1 \<le> k" by simp
    then have "(r + 1) * (r + 1) \<le> k * k" by (intro mult_le_mono)
    with assms(2) show False by (simp add: power2_eq_square)
  qed
  ultimately show ?thesis by simp
qed

lemma rms_replicate:
  assumes "n \<noteq> 0"
  shows "audio_calculate_rms (Some (replicate (unat n) a)) n = Some (word_of_int \<bar>sint a\<bar>)"
proof -
  obtain r where r: "audio_calculate_rms (Some (replicate (unat n) a)) n = Some r"
    and lo: "unat r * unat r \<le> mean_square (replicate (unat n) a) n"
    and hi: "mean_square (replicate (unat n) a) n < (unat r + 1)\<^sup>2"
    using rms_spec [of "replicate (unat n) a" n] by blast
  have "unat r = nat \<bar>sint a\<bar>"
    using lo hi unfolding mean_square_replicate [OF assms] by (rule square_sandwich)
  then have "(word_of_nat (unat r) :: u32) = word_of_nat (nat \<bar>sint a\<bar>)"
    by (rule arg_cong)
  moreover have "(word_of_nat (unat r) :: u32) = r"
    by simp
  ultimately have "r = word_of_nat (nat \<bar>sint a\<bar>)"
    by (simp only:)
  also have "\<dots> = word_of_int \<bar>sint a\<bar>"
    by (rule word_of_int_nat [symmetric]) (rule abs_ge_zero)
  finally show ?thesis using r by (simp only:)
qed

lemma abs_sint_ucast:
  "(word_of_int \<bar>sint (a :: i16)\<bar> :: u32) = (if 0 \<le> sint a then ucast a else ucast (- a))"
proof (cases "0 \<le> sint a")
  case True
  have "uint a = take_bit 16 (sint a)"
    by (simp add: uint_sint)
  also have "\<dots> = sint a"
    using True sint16_bounds(2) [of a] by (intro take_bit_int_eq_self) simp_all
  finally show ?thesis using True by (simp add: ucast_eq)
next
  case False
  have "uint (- a) = (- uint a) mod 2 ^ 16"
    by (simp add: uint_word_ariths)
  also have "\<dots> = (- (sint a mod 2 ^ 16)) mod 2 ^ 16"
    by (simp add: uint_sint take_bit_eq_mod)
  also have "\<dots> = (- sint a) mod 2 ^ 16"
    by (rule mod_minus_eq)
  also have "\<dots> = - sint a"
    using False sint16_bounds(1) [of a] by (intro mod_pos_pos_trivial) simp_all
  finally show ?thesis using False by (simp add: ucast_eq)
qed

lemma rms_le:
  "\<exists>r. audio_calculate_rms samples n = Some r \<and> unat r \<le> 32768"
proof (cases samples)
  case None
  then show ?thesis by (simp add: audio_calculate_rms_def)
next
  case (Some xs)
  obtain r where r: "audio_calculate_rms (Some xs) n = Some r"
    and lo: "unat r * unat r \<le> mean_square xs n"
    using rms_spec [of xs n] by blast
  have sq: "unat r * unat r \<le> 1073741824"
    using lo mean_square_le [of xs n] by linarith
  have "unat r \<le> 32768"
  proof (rule ccontr)
    assume "\<not> unat r \<le> 32768"
    then have "32769 \<le> unat r" by simp
    then have "32769 * 32769 \<le> unat r * unat r" by (intro mult_le_mono)
    with sq show False by simp
  qed
  with r Some show ?thesis by simp
qed

text \<open>
  Claim C6. \<open>audio_calculate_rms\<close> returns 0 for the null pointer and for a zero count,
  and 0 for a block of zeros. For a block of \<open>n\<close> copies of one sample \<open>a\<close> it returns
  the amplitude \<open>\<bar>a\<bar>\<close> exactly (the sample itself when it is not negative), for every
  16-bit \<open>a\<close> and every count. In general it returns the integer square root of the
  mean of the squared samples, and never divides by zero.
\<close>

theorem rms_correct:
  "audio_calculate_rms None n = Some 0
   \<and> audio_calculate_rms samples 0 = Some 0
   \<and> audio_calculate_rms (Some (replicate (unat n) 0)) n = Some 0
   \<and> audio_calculate_rms (Some (replicate (unat n) a)) n
        = Some (if n = 0 then 0 else word_of_int \<bar>sint a\<bar>)
   \<and> (word_of_int \<bar>sint a\<bar> :: u32) = (if 0 \<le> sint a then ucast a else ucast (- a))
   \<and> (\<exists>r. audio_calculate_rms (Some xs) n = Some r
          \<and> (unat r)\<^sup>2 \<le> mean_square xs n \<and> mean_square xs n < (unat r + 1)\<^sup>2)"
proof -
  have a: "audio_calculate_rms None n = Some 0"
    by (simp add: audio_calculate_rms_def)
  have b: "audio_calculate_rms s 0 = Some 0" for s
    by (cases s) (simp_all add: audio_calculate_rms_def)
  have d: "audio_calculate_rms (Some (replicate (unat n) a)) n
        = Some (if n = 0 then 0 else word_of_int \<bar>sint a\<bar>)" for a
    using rms_replicate [of n a] b [of "Some (replicate (unat n) a)"] by (cases "n = 0") simp_all
  have c: "audio_calculate_rms (Some (replicate (unat n) 0)) n = Some 0"
    using d [of 0] by simp
  have e: "\<exists>r. audio_calculate_rms (Some xs) n = Some r
          \<and> (unat r)\<^sup>2 \<le> mean_square xs n \<and> mean_square xs n < (unat r + 1)\<^sup>2"
    using rms_spec [of xs n] by (simp add: power2_eq_square)
  show ?thesis using a b [of samples] c d [of a] e abs_sint_ucast [of a] by blast
qed

text \<open>
  Claim C9. For every array and count, \<open>audio_calculate_rms\<close> returns a value of at most
  32768. Each square fits the 32-bit signed product (it is at most \<open>2^30\<close>), the 64-bit
  sum does not wrap (the count is a 32-bit \<open>size_t\<close>, so the sum of squares always fits),
  and the mean is at most \<open>2^30\<close>.
\<close>

theorem rms_at_most_32768:
  "(\<exists>r. audio_calculate_rms samples n = Some r \<and> unat r \<le> 32768)
   \<and> sint ((scast (a :: i16) :: 32 word) * scast a) = sint a * sint a
   \<and> sint a * sint a \<le> 2 ^ 30
   \<and> unat (sum_squares (take (unat n) xs) 0) = (\<Sum>s\<leftarrow>take (unat n) xs. nat ((sint s)\<^sup>2))
   \<and> (\<Sum>s\<leftarrow>take (unat n) xs. nat ((sint s)\<^sup>2)) < 2 ^ 64
   \<and> mean_square xs n \<le> 2 ^ 30"
proof -
  have sqf: "sq = (\<lambda>s. nat ((sint s)\<^sup>2))"
    by (rule ext) (rule sq_power2)
  have t: "unat (sum_squares (take (unat n) xs) 0) = (\<Sum>s\<leftarrow>take (unat n) xs. nat ((sint s)\<^sup>2))"
    using unat_total [of n xs] by (simp only: sqf)
  have "unat (sum_squares (take (unat n) xs) 0) < 2 ^ 64"
    using unsigned_less [of "sum_squares (take (unat n) xs) 0", where ?'a = nat] by simp
  then have lt: "(\<Sum>s\<leftarrow>take (unat n) xs. nat ((sint s)\<^sup>2)) < 2 ^ 64"
    by (simp only: t)
  have m: "mean_square xs n \<le> 2 ^ 30"
    using mean_square_le [of xs n] by simp
  have s: "sint a * sint a \<le> 2 ^ 30"
    using sq16_bound' [of a] by simp
  show ?thesis using rms_le [of samples n] sint_product32 [of a] s t lt m by blast
qed

section \<open>Properties of the state machine and the capture loop\<close>

lemma samples_of_concat_replicate:
  "samples_of (concat (replicate k [lo, hi])) = replicate k (ucast lo OR push_bit 8 (ucast hi))"
  by (induction k) simp_all

lemma rms_constant_block:
  assumes "(ucast lo OR push_bit 8 (ucast hi) :: i16) = a"
  shows "audio_calculate_rms (Some (samples_of (constant_block lo hi))) (1920 div 2)
           = Some (word_of_int \<bar>sint a\<bar>)"
proof -
  have n: "(1920 div 2 :: u32) = 960" by simp
  have "audio_calculate_rms (Some (replicate (unat (960 :: u32)) a)) 960
           = Some (word_of_int \<bar>sint a\<bar>)"
    by (rule rms_replicate) simp
  then show ?thesis
    unfolding n constant_block_def samples_of_concat_replicate assms by simp
qed

lemma rms_block_99: "audio_calculate_rms (Some (samples_of (constant_block 99 0))) (1920 div 2) = Some 99"
  using rms_constant_block [of 99 0 99] by simp

lemma rms_block_100: "audio_calculate_rms (Some (samples_of (constant_block 100 0))) (1920 div 2) = Some 100"
  using rms_constant_block [of 100 0 100] by simp

lemma rms_block_101: "audio_calculate_rms (Some (samples_of (constant_block 101 0))) (1920 div 2) = Some 101"
  using rms_constant_block [of 101 0 101] by simp

text \<open>
  Claim C1, as stated, fails at the threshold itself: the comparison is
  \<open>rms > RMS_THRESHOLD_NORMAL\<close>. A captured block of loudness exactly 100, evaluated in
  state Idle, leaves the state Idle and sends nothing.
\<close>

theorem idle_at_threshold_stays_idle:
  "audio_calculate_rms (Some (samples_of (constant_block 100 0))) (1920 div 2) = Some 100
   \<and> voice_assistant_iteration ESP_OK (constant_block 100 0) 1920 1000
        \<lparr>current_state = STATE_IDLE, silence_start = 0, sequence_va = 0\<rparr>
      = Some (\<lparr>current_state = STATE_IDLE, silence_start = 0, sequence_va = 0\<rparr>, [])"
  using rms_block_100
  by (simp add: voice_assistant_iteration_def RMS_THRESHOLD_NORMAL_def)

text \<open>
  Claim C1, amended. For every capture evaluation in state Idle: if the loudness is at
  most the threshold 100 (so at 99 and at 100) the state remains Idle and nothing is
  sent; if it is above 100 the state becomes UserSpeaking on that evaluation, the
  silence timer is reset, the triggering block is sent at once with sequence 0, and
  the outgoing sequence counter stands at 1.
\<close>

theorem idle_enters_speaking:
  assumes "current_state v = STATE_IDLE"
    and "audio_calculate_rms (Some (samples_of chunk_buffer)) (bytes_captured div 2) = Some rms"
  shows "(rms \<le> 100 \<longrightarrow>
            voice_assistant_iteration ESP_OK chunk_buffer bytes_captured now v = Some (v, []))
       \<and> (rms > 100 \<longrightarrow>
            voice_assistant_iteration ESP_OK chunk_buffer bytes_captured now v
              = Some (v\<lparr>current_state := STATE_USER_SPEAKING, silence_start := 0, sequence_va := 1\<rparr>,
                      [UdpSendAudioPacket chunk_buffer bytes_captured 0]))"
  using assms
  by (auto simp add: voice_assistant_iteration_def RMS_THRESHOLD_NORMAL_def set_voice_state_def
        send_chunk_def Let_def)

theorem idle_enters_speaking_witness:
  "voice_assistant_iteration ESP_OK (constant_block 99 0) 1920 1000
        \<lparr>current_state = STATE_IDLE, silence_start = 0, sequence_va = 5\<rparr>
      = Some (\<lparr>current_state = STATE_IDLE, silence_start = 0, sequence_va = 5\<rparr>, [])
   \<and> voice_assistant_iteration ESP_OK (constant_block 101 0) 1920 1000
        \<lparr>current_state = STATE_IDLE, silence_start = 0, sequence_va = 5\<rparr>
      = Some (\<lparr>current_state = STATE_USER_SPEAKING, silence_start = 0, sequence_va = 1\<rparr>,
              [UdpSendAudioPacket (constant_block 101 0) 1920 0])"
  using idle_enters_speaking [of "\<lparr>current_state = STATE_IDLE, silence_start = 0, sequence_va = 5\<rparr>"
          "constant_block 99 0" 1920 99 1000, OF _ rms_block_99]
        idle_enters_speaking [of "\<lparr>current_state = STATE_IDLE, silence_start = 0, sequence_va = 5\<rparr>"
          "constant_block 101 0" 1920 101 1000, OF _ rms_block_101]
  by simp

lemma run_append:
  "voice_assistant_run (xs @ ys) v =
     (case voice_assistant_run xs v of
        None \<Rightarrow> None
      | Some r \<Rightarrow>
          (case voice_assistant_run ys (fst r) of
             None \<Rightarrow> None
           | Some r1 \<Rightarrow> Some (fst r1, snd r @ snd r1)))"
  by (induction xs arbitrary: v) (auto split: option.splits)

lemma sends_append:
  "sends seq (xs @ ys) = sends seq xs @ sends (seq + of_nat (length xs)) ys"
  by (induction xs arbitrary: seq) (simp_all add: add.assoc)

lemma quiet_iteration:
  assumes "quiet c" and "current_state v = STATE_USER_SPEAKING"
  shows "voice_assistant_iteration (cap_ret c) (cap_buffer c) (cap_bytes c) (cap_now c) v =
     Some (if silence_start v = 0
           then (v\<lparr>silence_start := cap_now c, sequence_va := sequence_va v + 1\<rparr>,
                 [UdpSendAudioPacket (cap_buffer c) (cap_bytes c) (sequence_va v)])
           else if cap_now c - silence_start v > SILENCE_DURATION_MS
           then (v\<lparr>current_state := STATE_IDLE, silence_start := 0\<rparr>, [PlaybackQueueStop])
           else (v\<lparr>sequence_va := sequence_va v + 1\<rparr>,
                 [UdpSendAudioPacket (cap_buffer c) (cap_bytes c) (sequence_va v)]))"
  using assms
  by (auto simp add: quiet_def voice_assistant_iteration_def set_voice_state_def send_chunk_def
        Let_def split: option.splits)

lemma quiet_running:
  assumes "current_state v = STATE_USER_SPEAKING" and "silence_start v \<noteq> 0"
    and "\<forall>c\<in>set cs. quiet c \<and> cap_now c - silence_start v \<le> SILENCE_DURATION_MS"
  shows "voice_assistant_run cs v =
           Some (v\<lparr>sequence_va := sequence_va v + of_nat (length cs)\<rparr>, sends (sequence_va v) cs)"
  using assms
proof (induction cs arbitrary: v)
  case Nil
  then show ?case by simp
next
  case (Cons c cs)
  let ?v1 = "v\<lparr>sequence_va := sequence_va v + 1\<rparr>"
  have it: "voice_assistant_iteration (cap_ret c) (cap_buffer c) (cap_bytes c) (cap_now c) v =
     Some (?v1, [UdpSendAudioPacket (cap_buffer c) (cap_bytes c) (sequence_va v)])"
    using Cons.prems by (simp add: quiet_iteration)
  have "voice_assistant_run cs ?v1 =
           Some (?v1\<lparr>sequence_va := sequence_va ?v1 + of_nat (length cs)\<rparr>, sends (sequence_va ?v1) cs)"
    using Cons.prems by (intro Cons.IH) simp_all
  then show ?case by (simp add: it add.assoc)
qed

lemma quiet_block_99: "quiet \<lparr>cap_ret = ESP_OK, cap_buffer = constant_block 99 0, cap_bytes = 1920, cap_now = t\<rparr>"
  using rms_block_99 by (simp add: quiet_def AUDIO_RMS_STOP_THRESHOLD_def)

text \<open>
  Claim C2, as stated, fails at exactly \<open>SILENCE_DURATION_MS\<close>: the comparison is
  \<open>get_time_ms() - silence_start > SILENCE_DURATION_MS\<close>. A run in UserSpeaking with
  the timer at zero whose first quiet block is evaluated at clock reading 1000 and whose
  next quiet block is evaluated at 6000 (5000 ms of silence) is still in UserSpeaking,
  and both blocks are sent.
\<close>

theorem silence_of_exactly_5000ms_keeps_speaking:
  "quiet \<lparr>cap_ret = ESP_OK, cap_buffer = constant_block 99 0, cap_bytes = 1920, cap_now = 1000\<rparr>
   \<and> quiet \<lparr>cap_ret = ESP_OK, cap_buffer = constant_block 99 0, cap_bytes = 1920, cap_now = 6000\<rparr>
   \<and> voice_assistant_run
        [\<lparr>cap_ret = ESP_OK, cap_buffer = constant_block 99 0, cap_bytes = 1920, cap_now = 1000\<rparr>,
         \<lparr>cap_ret = ESP_OK, cap_buffer = constant_block 99 0, cap_bytes = 1920, cap_now = 6000\<rparr>]
        \<lparr>current_state = STATE_USER_SPEAKING, silence_start = 0, sequence_va = 7\<rparr>
      = Some (\<lparr>current_state = STATE_USER_SPEAKING, silence_start = 1000, sequence_va = 9\<rparr>,
              [UdpSendAudioPacket (constant_block 99 0) 1920 7,
               UdpSendAudioPacket (constant_block 99 0) 1920 8])"
proof -
  have i1: "voice_assistant_iteration ESP_OK (constant_block 99 0) 1920 1000
        \<lparr>current_state = STATE_USER_SPEAKING, silence_start = 0, sequence_va = 7\<rparr>
      = Some (\<lparr>current_state = STATE_USER_SPEAKING, silence_start = 1000, sequence_va = 8\<rparr>,
              [UdpSendAudioPacket (constant_block 99 0) 1920 7])"
    using quiet_iteration [OF quiet_block_99 [of 1000],
        of "\<lparr>current_state = STATE_USER_SPEAKING, silence_start = 0, sequence_va = 7\<rparr>"]
    by simp
  have i2: "voice_assistant_iteration ESP_OK (constant_block 99 0) 1920 6000
        \<lparr>current_state = STATE_USER_SPEAKING, silence_start = 1000, sequence_va = 8\<rparr>
      = Some (\<lparr>current_state = STATE_USER_SPEAKING, silence_start = 1000, sequence_va = 9\<rparr>,
              [UdpSendAudioPacket (constant_block 99 0) 1920 8])"
    using quiet_iteration [OF quiet_block_99 [of 6000],
        of "\<lparr>current_state = STATE_USER_SPEAKING, silence_start = 1000, sequence_va = 8\<rparr>"]
    by (simp add: SILENCE_DURATION_MS_def)
  show ?thesis by (simp add: quiet_block_99 i1 i2)
qed

text \<open>
  Claim C2, amended. Take any run in state UserSpeaking that begins with the silence
  timer at zero and whose first quiet block is evaluated at a non-zero clock reading.
  As long as every further block is quiet and is evaluated at most 5000 ms (by the
  clock readings) after that first one, the state remains UserSpeaking and every block
  is sent, with consecutive sequence numbers. The first quiet block evaluated more than
  5000 ms after it sets the state to Idle, stops playback, resets the timer and is not
  sent. A block of loudness 500 or more resets the timer to zero, and so does the
  entry into UserSpeaking from Idle.
\<close>

theorem silence_timeout_run:
  assumes "current_state v = STATE_USER_SPEAKING" and "silence_start v = 0"
    and "quiet c0" and "cap_now c0 \<noteq> 0"
    and "\<forall>c\<in>set cs. quiet c \<and> cap_now c - cap_now c0 \<le> SILENCE_DURATION_MS"
    and "quiet c1" and "cap_now c1 - cap_now c0 > SILENCE_DURATION_MS"
  shows "voice_assistant_run (c0 # cs) v
           = Some (v\<lparr>silence_start := cap_now c0,
                      sequence_va := sequence_va v + of_nat (length (c0 # cs))\<rparr>,
                   sends (sequence_va v) (c0 # cs))
       \<and> voice_assistant_run (c0 # cs @ [c1]) v
           = Some (v\<lparr>current_state := STATE_IDLE, silence_start := 0,
                      sequence_va := sequence_va v + of_nat (length (c0 # cs))\<rparr>,
                   sends (sequence_va v) (c0 # cs) @ [PlaybackQueueStop])
       \<and> (current_state w = STATE_USER_SPEAKING
            \<and> audio_calculate_rms (Some (samples_of chunk_buffer)) (bytes_captured div 2) = Some rms
            \<and> rms \<ge> AUDIO_RMS_STOP_THRESHOLD
          \<longrightarrow> voice_assistant_iteration ESP_OK chunk_buffer bytes_captured now w
                = Some (w\<lparr>silence_start := 0, sequence_va := sequence_va w + 1\<rparr>,
                        [UdpSendAudioPacket chunk_buffer bytes_captured (sequence_va w)]))
       \<and> (current_state w = STATE_IDLE
            \<and> audio_calculate_rms (Some (samples_of chunk_buffer)) (bytes_captured div 2) = Some rms
            \<and> rms > RMS_THRESHOLD_NORMAL
          \<longrightarrow> map_option (\<lambda>r. (current_state (fst r), silence_start (fst r)))
                  (voice_assistant_iteration ESP_OK chunk_buffer bytes_captured now w)
                = Some (STATE_USER_SPEAKING, 0))"
proof -
  let ?v1 = "v\<lparr>silence_start := cap_now c0, sequence_va := sequence_va v + 1\<rparr>"
  have first: "voice_assistant_iteration (cap_ret c0) (cap_buffer c0) (cap_bytes c0) (cap_now c0) v
      = Some (?v1, [UdpSendAudioPacket (cap_buffer c0) (cap_bytes c0) (sequence_va v)])"
    using assms(1,2,3) by (simp add: quiet_iteration)
  have mid: "voice_assistant_run cs ?v1 =
      Some (?v1\<lparr>sequence_va := sequence_va ?v1 + of_nat (length cs)\<rparr>, sends (sequence_va ?v1) cs)"
    using assms(1,4,5) by (intro quiet_running) simp_all
  have a: "voice_assistant_run (c0 # cs) v
           = Some (v\<lparr>silence_start := cap_now c0,
                      sequence_va := sequence_va v + of_nat (length (c0 # cs))\<rparr>,
                   sends (sequence_va v) (c0 # cs))"
    by (simp add: first mid add.assoc)
  let ?v2 = "v\<lparr>silence_start := cap_now c0, sequence_va := sequence_va v + of_nat (length (c0 # cs))\<rparr>"
  have last: "voice_assistant_iteration (cap_ret c1) (cap_buffer c1) (cap_bytes c1) (cap_now c1) ?v2
      = Some (?v2\<lparr>current_state := STATE_IDLE, silence_start := 0\<rparr>, [PlaybackQueueStop])"
    using assms(1,4,6,7) by (simp add: quiet_iteration)
  have "voice_assistant_run ((c0 # cs) @ [c1]) v
           = Some (?v2\<lparr>current_state := STATE_IDLE, silence_start := 0\<rparr>,
                   sends (sequence_va v) (c0 # cs) @ [PlaybackQueueStop])"
    unfolding run_append a using last by simp
  then have b: "voice_assistant_run (c0 # cs @ [c1]) v
           = Some (v\<lparr>current_state := STATE_IDLE, silence_start := 0,
                      sequence_va := sequence_va v + of_nat (length (c0 # cs))\<rparr>,
                   sends (sequence_va v) (c0 # cs) @ [PlaybackQueueStop])"
    by simp
  have c: "current_state w = STATE_USER_SPEAKING
            \<and> audio_calculate_rms (Some (samples_of chunk_buffer)) (bytes_captured div 2) = Some rms
            \<and> rms \<ge> AUDIO_RMS_STOP_THRESHOLD
          \<longrightarrow> voice_assistant_iteration ESP_OK chunk_buffer bytes_captured now w
                = Some (w\<lparr>silence_start := 0, sequence_va := sequence_va w + 1\<rparr>,
                        [UdpSendAudioPacket chunk_buffer bytes_captured (sequence_va w)])"
    by (auto simp add: voice_assistant_iteration_def send_chunk_def)
  have d: "current_state w = STATE_IDLE
            \<and> audio_calculate_rms (Some (samples_of chunk_buffer)) (bytes_captured div 2) = Some rms
            \<and> rms > RMS_THRESHOLD_NORMAL
          \<longrightarrow> map_option (\<lambda>r. (current_state (fst r), silence_start (fst r)))
                  (voice_assistant_iteration ESP_OK chunk_buffer bytes_captured now w)
                = Some (STATE_USER_SPEAKING, 0)"
    by (auto simp add: voice_assistant_iteration_def send_chunk_def set_voice_state_def Let_def)
  show ?thesis using a b c d by blast
qed

theorem silence_timeout_run_witness:
  "voice_assistant_run
        [\<lparr>cap_ret = ESP_OK, cap_buffer = constant_block 99 0, cap_bytes = 1920, cap_now = 1000\<rparr>,
         \<lparr>cap_ret = ESP_OK, cap_buffer = constant_block 99 0, cap_bytes = 1920, cap_now = 5999\<rparr>]
        \<lparr>current_state = STATE_USER_SPEAKING, silence_start = 0, sequence_va = 7\<rparr>
      = Some (\<lparr>current_state = STATE_USER_SPEAKING, silence_start = 1000, sequence_va = 9\<rparr>,
              [UdpSendAudioPacket (constant_block 99 0) 1920 7,
               UdpSendAudioPacket (constant_block 99 0) 1920 8])
   \<and> voice_assistant_run
        [\<lparr>cap_ret = ESP_OK, cap_buffer = constant_block 99 0, cap_bytes = 1920, cap_now = 1000\<rparr>,
         \<lparr>cap_ret = ESP_OK, cap_buffer = constant_block 99 0, cap_bytes = 1920, cap_now = 5999\<rparr>,
         \<lparr>cap_ret = ESP_OK, cap_buffer = constant_block 99 0, cap_bytes = 1920, cap_now = 6001\<rparr>]
        \<lparr>current_state = STATE_USER_SPEAKING, silence_start = 0, sequence_va = 7\<rparr>
      = Some (\<lparr>current_state = STATE_IDLE, silence_start = 0, sequence_va = 9\<rparr>,
              [UdpSendAudioPacket (constant_block 99 0) 1920 7,
               UdpSendAudioPacket (constant_block 99 0) 1920 8, PlaybackQueueStop])"
  using silence_timeout_run
    [where v = "\<lparr>current_state = STATE_USER_SPEAKING, silence_start = 0, sequence_va = 7\<rparr>"
       and ?c0.0 = "\<lparr>cap_ret = ESP_OK, cap_buffer = constant_block 99 0, cap_bytes = 1920, cap_now = 1000\<rparr>"
       and cs = "[\<lparr>cap_ret = ESP_OK, cap_buffer = constant_block 99 0, cap_bytes = 1920, cap_now = 5999\<rparr>]"
       and ?c1.0 = "\<lparr>cap_ret = ESP_OK, cap_buffer = constant_block 99 0, cap_bytes = 1920, cap_now = 6001\<rparr>"]
  by (simp add: quiet_block_99 SILENCE_DURATION_MS_def)

text \<open>
  The interrupt path sets the state and the outgoing sequence and sends the block; it
  leaves \<open>silence_start\<close> as it is (the source resets it on the Idle path only).
\<close>

lemma interrupt_keeps_silence_start:
  assumes "current_state w = STATE_AI_SPEAKING"
    and "audio_calculate_rms (Some (samples_of chunk_buffer)) (bytes_captured div 2) = Some rms"
    and "rms > RMS_THRESHOLD_INTERRUPT"
  shows "voice_assistant_iteration ESP_OK chunk_buffer bytes_captured now w
           = Some (w\<lparr>current_state := STATE_USER_SPEAKING, sequence_va := 1\<rparr>,
                   [PlaybackQueueStop, UdpSendInterruptSignal,
                    UdpSendAudioPacket chunk_buffer bytes_captured 0])"
  using assms
  by (simp add: voice_assistant_iteration_def set_voice_state_def send_chunk_def Let_def)

text \<open>
  Claim C8. Setting the state to the value it already has leaves it unchanged and makes
  no call (no playback start, no playback stop, no interrupt signal). A state-set that
  changes the state makes the calls of that transition; the same state-set requested
  again right after it makes none, so they are made exactly once.
\<close>

theorem same_state_set_is_noop:
  "set_voice_state s s = (s, [])
   \<and> set_voice_state n (fst (set_voice_state n s)) = (fst (set_voice_state n s), [])
   \<and> fst (set_voice_state n s) = n
   \<and> snd (set_voice_state n s) =
        (if s = n then []
         else case n of
                STATE_IDLE \<Rightarrow> [PlaybackQueueStop]
              | STATE_USER_SPEAKING \<Rightarrow>
                  if s = STATE_AI_SPEAKING then [PlaybackQueueStop, UdpSendInterruptSignal] else []
              | STATE_AI_SPEAKING \<Rightarrow> [PlaybackQueueStart])"
  by (simp add: set_voice_state_def Let_def)

section \<open>Properties of the jitter buffer\<close>

lemma drops_append [simp]: "drops (xs @ ys) = drops xs @ drops ys"
  by (induction xs rule: drops.induct) simp_all

lemma push_queue:
  assumes "audio_playback_queue s = Some q"
  shows "audio_playback_queue (snd (audio_playback_queue_push dat len seq il s)) =
           Some (if length (items q) < uxLength q
                 then q\<lparr>items := items q @ [chunk_of (dat, len, seq, il)]\<rparr> else q)"
  using assms
  by (simp add: audio_playback_queue_push_def xQueueSend_def chunk_of_def Let_def min_def)

lemma push_result:
  assumes "audio_playback_queue s = Some q"
  shows "fst (audio_playback_queue_push dat len seq il s) =
           (if length (items q) < uxLength q then ESP_OK else ESP_ERR_NO_MEM)"
  using assms
  by (simp add: audio_playback_queue_push_def xQueueSend_def Let_def)

lemma push_drops:
  assumes "audio_playback_queue s = Some q"
  shows "drops (warnings (snd (audio_playback_queue_push dat len seq il s))) =
           drops (warnings s) @ (if length (items q) < uxLength q then [] else [seq])"
  using assms
  by (simp add: audio_playback_queue_push_def xQueueSend_def Let_def)

lemma push_all_queue:
  assumes "audio_playback_queue s = Some q"
  shows "audio_playback_queue (snd (push_all bs s)) =
           Some (q\<lparr>items := items q @ take (uxLength q - length (items q)) (map chunk_of bs)\<rparr>)"
  using assms
proof (induction bs arbitrary: s q)
  case Nil
  then show ?case by simp
next
  case (Cons b bs)
  obtain dat len seq il where b: "b = (dat, len, seq, il)" by (cases b) auto
  let ?s1 = "snd (audio_playback_queue_push dat len seq il s)"
  let ?q1 = "if length (items q) < uxLength q
             then q\<lparr>items := items q @ [chunk_of (dat, len, seq, il)]\<rparr> else q"
  have q1: "audio_playback_queue ?s1 = Some ?q1"
    using Cons.prems by (rule push_queue)
  have "audio_playback_queue (snd (push_all bs ?s1)) =
          Some (?q1\<lparr>items := items ?q1 @ take (uxLength ?q1 - length (items ?q1)) (map chunk_of bs)\<rparr>)"
    using q1 by (rule Cons.IH)
  moreover have "snd (push_all (b # bs) s) = snd (push_all bs ?s1)"
    by (simp add: b Let_def)
  ultimately show ?case
    by (cases "length (items q) < uxLength q") (simp_all add: b take_Cons' Suc_diff_Suc)
qed

lemma push_all_results:
  assumes "audio_playback_queue s = Some q"
  shows "fst (push_all bs s) =
           replicate (min (length bs) (uxLength q - length (items q))) ESP_OK
           @ replicate (length bs - (uxLength q - length (items q))) ESP_ERR_NO_MEM"
  using assms
proof (induction bs arbitrary: s q)
  case Nil
  then show ?case by simp
next
  case (Cons b bs)
  obtain dat len seq il where b: "b = (dat, len, seq, il)" by (cases b) auto
  let ?s1 = "snd (audio_playback_queue_push dat len seq il s)"
  let ?q1 = "if length (items q) < uxLength q
             then q\<lparr>items := items q @ [chunk_of (dat, len, seq, il)]\<rparr> else q"
  have q1: "audio_playback_queue ?s1 = Some ?q1"
    using Cons.prems by (rule push_queue)
  have ih: "fst (push_all bs ?s1) =
           replicate (min (length bs) (uxLength ?q1 - length (items ?q1))) ESP_OK
           @ replicate (length bs - (uxLength ?q1 - length (items ?q1))) ESP_ERR_NO_MEM"
    using q1 by (rule Cons.IH)
  have hd: "fst (push_all (b # bs) s) =
          (if length (items q) < uxLength q then ESP_OK else ESP_ERR_NO_MEM) # fst (push_all bs ?s1)"
    using push_result [OF Cons.prems, of dat len seq il] by (simp add: b Let_def)
  show ?case
  proof (cases "length (items q) < uxLength q")
    case True
    then obtain k where k: "uxLength q - length (items q) = Suc k"
      by (metis Suc_diff_Suc)
    then have k1: "uxLength q - Suc (length (items q)) = k" by simp
    show ?thesis unfolding hd ih using True by (simp add: k k1)
  next
    case False
    then show ?thesis unfolding hd ih by simp
  qed
qed

lemma push_all_drops:
  assumes "audio_playback_queue s = Some q"
  shows "drops (warnings (snd (push_all bs s))) =
           drops (warnings s) @ map (\<lambda>b. fst (snd (snd b))) (drop (uxLength q - length (items q)) bs)"
  using assms
proof (induction bs arbitrary: s q)
  case Nil
  then show ?case by simp
next
  case (Cons b bs)
  obtain dat len seq il where b: "b = (dat, len, seq, il)" by (cases b) auto
  let ?s1 = "snd (audio_playback_queue_push dat len seq il s)"
  let ?q1 = "if length (items q) < uxLength q
             then q\<lparr>items := items q @ [chunk_of (dat, len, seq, il)]\<rparr> else q"
  have q1: "audio_playback_queue ?s1 = Some ?q1"
    using Cons.prems by (rule push_queue)
  have ih: "drops (warnings (snd (push_all bs ?s1))) =
           drops (warnings ?s1) @ map (\<lambda>b. fst (snd (snd b))) (drop (uxLength ?q1 - length (items ?q1)) bs)"
    using q1 by (rule Cons.IH)
  have sn: "snd (push_all (b # bs) s) = snd (push_all bs ?s1)"
    by (simp add: b Let_def)
  show ?case
  proof (cases "length (items q) < uxLength q")
    case True
    then obtain k where k: "uxLength q - length (items q) = Suc k"
      by (metis Suc_diff_Suc)
    then have k1: "uxLength q - Suc (length (items q)) = k" by simp
    show ?thesis unfolding sn ih using True
      by (simp add: k k1 push_drops [OF Cons.prems])
  next
    case False
    then show ?thesis unfolding sn ih
      by (simp add: push_drops [OF Cons.prems] b)
  qed
qed

lemma init_queue:
  "audio_playback_queue (snd (audio_playback_queue_init True p))
     = Some \<lparr>items = [], uxLength = AUDIO_QUEUE_LENGTH\<rparr>"
  by (simp add: audio_playback_queue_init_def xQueueCreateStatic_def)

lemma init_warnings: "warnings (snd (audio_playback_queue_init True p)) = warnings p"
  by (simp add: audio_playback_queue_init_def)

lemma push_accepts_iff_space:
  "fst (audio_playback_queue_push dat len seq il s) = ESP_OK \<longleftrightarrow> 0 < audio_playback_queue_space s"
  by (auto simp add: audio_playback_queue_push_def audio_playback_queue_space_def
        uxQueueSpacesAvailable_def xQueueSend_def Let_def split: option.splits)

lemma dropped_push_frame:
  "fst (audio_playback_queue_push dat len seq il s) \<noteq> ESP_OK \<Longrightarrow>
     snd (audio_playback_queue_push dat len seq il s)
       = s\<lparr>warnings := warnings (snd (audio_playback_queue_push dat len seq il s))\<rparr>"
  by (auto simp add: audio_playback_queue_push_def xQueueSend_def Let_def split: option.splits)

lemma receive_client_independent:
  "fst (udp_receive_datagram d (u, p)) = fst (udp_receive_datagram d (u, p'))"
  "snd (snd (udp_receive_datagram d (u, p))) = snd (snd (udp_receive_datagram d (u, p')))"
  by (simp_all add: udp_receive_datagram_def Let_def)

lemma receive_all_client_independent:
  "fst (udp_receive_all ds (u, p)) = fst (udp_receive_all ds (u, p'))"
proof (induction ds arbitrary: u p p')
  case Nil
  then show ?case by simp
next
  case (Cons d ds)
  show ?case
    using Cons.IH [of "fst (udp_receive_datagram d (u, p))"
        "fst (snd (udp_receive_datagram d (u, p)))" "fst (snd (udp_receive_datagram d (u, p')))"]
    by (simp add: Let_def receive_client_independent(1) [of d u p p'])
qed

text \<open>
  Claim C3. \<open>audio_playback_queue_push\<close> returns at once. It accepts the block (returns
  \<open>ESP_OK\<close> and appends the chunk) exactly when a free slot exists. A block that is not
  accepted is dropped: the call returns the dropped result (\<open>ESP_ERR_NO_MEM\<close> on a full
  queue), logs the drop with the sequence number, and changes nothing but the warning
  trace. Pushing 3501 blocks into the freshly created queue with no pop keeps the first
  3500 in their order, drops exactly the last one and logs that one drop. The receive
  task does not read what the push returns: its own state after any list of datagrams
  is the same whatever the state of the queue was.
\<close>

theorem jitter_buffer_push:
  assumes "audio_playback_queue s = Some q" and "length bs = AUDIO_QUEUE_LENGTH + 1"
  shows "(fst (audio_playback_queue_push dat len seq il s) = ESP_OK \<longleftrightarrow> 0 < uxQueueSpacesAvailable q)
       \<and> (fst (audio_playback_queue_push dat len seq il s) = ESP_ERR_NO_MEM
            \<longleftrightarrow> uxQueueSpacesAvailable q = 0)
       \<and> audio_playback_queue (snd (audio_playback_queue_push dat len seq il s))
            = Some (if 0 < uxQueueSpacesAvailable q
                    then q\<lparr>items := items q @ [chunk_of (dat, len, seq, il)]\<rparr> else q)
       \<and> drops (warnings (snd (audio_playback_queue_push dat len seq il s)))
            = drops (warnings s) @ (if 0 < uxQueueSpacesAvailable q then [] else [seq])
       \<and> fst (push_all bs (snd (audio_playback_queue_init True p)))
            = replicate AUDIO_QUEUE_LENGTH ESP_OK @ [ESP_ERR_NO_MEM]
       \<and> audio_playback_queue (snd (push_all bs (snd (audio_playback_queue_init True p))))
            = Some \<lparr>items = map chunk_of (butlast bs), uxLength = AUDIO_QUEUE_LENGTH\<rparr>
       \<and> drops (warnings (snd (push_all bs (snd (audio_playback_queue_init True p)))))
            = drops (warnings p) @ [fst (snd (snd (last bs)))]
       \<and> (fst (audio_playback_queue_push dat len seq il s1) = ESP_OK
            \<longleftrightarrow> 0 < audio_playback_queue_space s1)
       \<and> (fst (audio_playback_queue_push dat len seq il s1) \<noteq> ESP_OK \<longrightarrow>
            snd (audio_playback_queue_push dat len seq il s1)
              = s1\<lparr>warnings := warnings (snd (audio_playback_queue_push dat len seq il s1))\<rparr>)
       \<and> fst (udp_receive_all ds (u, p1)) = fst (udp_receive_all ds (u, p2))"
proof -
  have sp: "0 < uxQueueSpacesAvailable q \<longleftrightarrow> length (items q) < uxLength q"
    by (auto simp add: uxQueueSpacesAvailable_def)
  have a: "fst (audio_playback_queue_push dat len seq il s) = ESP_OK \<longleftrightarrow> 0 < uxQueueSpacesAvailable q"
    by (simp add: push_result [OF assms(1)] sp)
  have b: "fst (audio_playback_queue_push dat len seq il s) = ESP_ERR_NO_MEM
            \<longleftrightarrow> uxQueueSpacesAvailable q = 0"
    by (auto simp add: push_result [OF assms(1)] uxQueueSpacesAvailable_def)
  have c: "audio_playback_queue (snd (audio_playback_queue_push dat len seq il s))
            = Some (if 0 < uxQueueSpacesAvailable q
                    then q\<lparr>items := items q @ [chunk_of (dat, len, seq, il)]\<rparr> else q)"
    by (simp only: push_queue [OF assms(1)] sp)
  have d: "drops (warnings (snd (audio_playback_queue_push dat len seq il s)))
            = drops (warnings s) @ (if 0 < uxQueueSpacesAvailable q then [] else [seq])"
    by (simp only: push_drops [OF assms(1)] sp)
  have bl: "take AUDIO_QUEUE_LENGTH bs = butlast bs"
    using assms(2) by (simp add: butlast_conv_take)
  have ne: "bs \<noteq> []" using assms(2) by auto
  have dl: "drop AUDIO_QUEUE_LENGTH bs = [last bs]"
  proof -
    have "bs = butlast bs @ [last bs]" using ne by simp
    then have "drop AUDIO_QUEUE_LENGTH bs = drop AUDIO_QUEUE_LENGTH (butlast bs @ [last bs])"
      by simp
    also have "\<dots> = [last bs]"
      using assms(2) by simp
    finally show ?thesis .
  qed
  have e: "fst (push_all bs (snd (audio_playback_queue_init True p)))
            = replicate AUDIO_QUEUE_LENGTH ESP_OK @ [ESP_ERR_NO_MEM]"
    using assms(2) by (simp add: push_all_results [OF init_queue])
  have f: "audio_playback_queue (snd (push_all bs (snd (audio_playback_queue_init True p))))
            = Some \<lparr>items = map chunk_of (butlast bs), uxLength = AUDIO_QUEUE_LENGTH\<rparr>"
    by (simp add: push_all_queue [OF init_queue] take_map bl)
  have g: "drops (warnings (snd (push_all bs (snd (audio_playback_queue_init True p)))))
            = drops (warnings p) @ [fst (snd (snd (last bs)))]"
    by (simp add: push_all_drops [OF init_queue] init_warnings dl)
  have h: "fst (audio_playback_queue_push dat len seq il s1) = ESP_OK
            \<longleftrightarrow> 0 < audio_playback_queue_space s1"
    by (rule push_accepts_iff_space)
  have i: "fst (audio_playback_queue_push dat len seq il s1) \<noteq> ESP_OK \<longrightarrow>
            snd (audio_playback_queue_push dat len seq il s1)
              = s1\<lparr>warnings := warnings (snd (audio_playback_queue_push dat len seq il s1))\<rparr>"
    using dropped_push_frame [of dat len seq il s1] by blast
  have j: "fst (udp_receive_all ds (u, p1)) = fst (udp_receive_all ds (u, p2))"
    by (rule receive_all_client_independent)
  show ?thesis using a b c d e f g h i j by blast
qed

theorem jitter_buffer_push_witness:
  "fst (audio_playback_queue_push [1, 2] 2 7 False
          (snd (audio_playback_queue_init True playback_statics))) = ESP_OK
   \<and> audio_playback_queue (snd (push_all (replicate 3501 ([1, 2], 2, 7, False))
          (snd (audio_playback_queue_init True playback_statics))))
       = Some \<lparr>items = replicate 3500 (chunk_of ([1, 2], 2, 7, False)), uxLength = 3500\<rparr>
   \<and> drops (warnings (snd (push_all (replicate 3501 ([1, 2], 2, 7, False))
          (snd (audio_playback_queue_init True playback_statics))))) = [7]"
proof -
  have q: "audio_playback_queue (snd (audio_playback_queue_init True playback_statics))
     = Some \<lparr>items = [], uxLength = AUDIO_QUEUE_LENGTH\<rparr>"
    by (rule init_queue)
  have l: "length (replicate 3501 ([1, 2] :: u8 list, 2 :: nat, 7 :: u32, False)) = AUDIO_QUEUE_LENGTH + 1"
    by (simp add: AUDIO_QUEUE_LENGTH_def)
  have bl: "butlast (replicate 3501 ([1, 2] :: u8 list, 2 :: nat, 7 :: u32, False))
              = replicate 3500 ([1, 2], 2, 7, False)"
    by (simp add: butlast_conv_take)
  show ?thesis
    using jitter_buffer_push [OF q l, where dat = "[1, 2]" and len = 2 and seq = 7 and il = False
        and p = playback_statics]
    by (simp add: bl uxQueueSpacesAvailable_def AUDIO_QUEUE_LENGTH_def playback_statics_def)
qed

section \<open>Properties of the playback task\<close>

lemma chunks_written_append [simp]:
  "chunks_written (xs @ ys) = chunks_written xs @ chunks_written ys"
  by (induction xs rule: chunks_written.induct) simp_all

lemma push_frame:
  "task_pc (snd (audio_playback_queue_push dat len seq il s)) = task_pc s"
  "queue_playback_active (snd (audio_playback_queue_push dat len seq il s)) = queue_playback_active s"
  "events (snd (audio_playback_queue_push dat len seq il s)) = events s"
  by (simp_all add: audio_playback_queue_push_def Let_def split: option.splits)

lemma stop_request_frame:
  "task_pc (audio_playback_queue_stop_request s) = task_pc s"
  "events (audio_playback_queue_stop_request s) = events s"
  "\<not> queue_playback_active (audio_playback_queue_stop_request s)"
  "audio_playback_queue (audio_playback_queue_stop_request s) = audio_playback_queue s"
  by (simp_all add: audio_playback_queue_stop_request_def)

lemma stop_poll_frame:
  "task_pc (audio_playback_queue_stop_poll s) = task_pc s"
  "events (audio_playback_queue_stop_poll s) = events s"
  "queue_playback_active (audio_playback_queue_stop_poll s) = queue_playback_active s"
  by (simp_all add: audio_playback_queue_stop_poll_def)

lemma task_exit_frame:
  "chunks_written (events (task_exit c s)) = chunks_written (events s)"
  "task_pc (task_exit c s) = TaskDeleted"
  "queue_playback_active (task_exit c s) = queue_playback_active s"
  by (simp_all add: task_exit_def Let_def)

text \<open>With the active flag down, no step writes a chunk and the flag stays down.\<close>

lemma inactive_step:
  assumes "\<not> queue_playback_active s"
  shows "\<not> queue_playback_active (playback_step a s)
       \<and> chunks_written (events (playback_step a s)) = chunks_written (events s)"
proof (cases a)
  case (Push dat len seq il)
  then show ?thesis using assms by (simp add: push_frame)
next
  case StopRequest
  then show ?thesis by (simp add: stop_request_frame)
next
  case StopPoll
  then show ?thesis using assms by (simp add: stop_poll_frame)
next
  case (TaskStep ret c)
  show ?thesis
  proof (cases "task_pc s")
    case Playing
    then show ?thesis using assms TaskStep
      by (simp add: queue_playback_task_step_def task_exit_frame)
  qed (use assms TaskStep in \<open>simp_all add: queue_playback_task_step_def Let_def split: option.splits\<close>)
qed

lemma inactive_run:
  assumes "\<not> queue_playback_active s"
  shows "\<not> queue_playback_active (playback_run acts s)
       \<and> chunks_written (events (playback_run acts s)) = chunks_written (events s)"
  using assms
proof (induction acts arbitrary: s)
  case Nil
  then show ?case by simp
next
  case (Cons a acts)
  have st: "\<not> queue_playback_active (playback_step a s)"
    and ev: "chunks_written (events (playback_step a s)) = chunks_written (events s)"
    using inactive_step [OF Cons.prems, of a] by simp_all
  show ?case using Cons.IH [OF st] ev by simp
qed

text \<open>While the depth is below the threshold, a step cannot enter the playing loop with the flag up.\<close>

lemma gate_step:
  assumes "task_pc s = Playing \<longrightarrow> \<not> queue_playback_active s"
    and "queue_depth s < MIN_PREBUFFER_CHUNKS"
  shows "(task_pc (playback_step a s) = Playing \<longrightarrow> \<not> queue_playback_active (playback_step a s))
       \<and> chunks_written (events (playback_step a s)) = chunks_written (events s)"
proof (cases a)
  case (Push dat len seq il)
  then show ?thesis using assms(1) by (simp add: push_frame)
next
  case StopRequest
  then show ?thesis by (simp add: stop_request_frame)
next
  case StopPoll
  then show ?thesis using assms(1) by (simp add: stop_poll_frame)
next
  case (TaskStep ret c)
  show ?thesis
  proof (cases "task_pc s")
    case Playing
    then show ?thesis using assms(1) TaskStep
      by (simp add: queue_playback_task_step_def task_exit_frame)
  next
    case PreBuffering
    then show ?thesis using assms(2) TaskStep
      by (auto simp add: queue_playback_task_step_def queue_depth_def split: option.splits)
  qed (use TaskStep in \<open>simp_all add: queue_playback_task_step_def Let_def\<close>)
qed

lemma gate_run:
  assumes "task_pc s = Playing \<longrightarrow> \<not> queue_playback_active s"
    and "\<forall>n\<le>length acts. queue_depth (playback_run (take n acts) s) < MIN_PREBUFFER_CHUNKS"
  shows "chunks_written (events (playback_run acts s)) = chunks_written (events s)"
  using assms
proof (induction acts arbitrary: s)
  case Nil
  then show ?case by simp
next
  case (Cons a acts)
  have d0: "queue_depth s < MIN_PREBUFFER_CHUNKS"
    using Cons.prems(2) [rule_format, of 0] by simp
  have inv: "task_pc (playback_step a s) = Playing \<longrightarrow> \<not> queue_playback_active (playback_step a s)"
    and ev: "chunks_written (events (playback_step a s)) = chunks_written (events s)"
    using gate_step [OF Cons.prems(1) d0, of a] by simp_all
  have rest: "\<forall>n\<le>length acts.
      queue_depth (playback_run (take n acts) (playback_step a s)) < MIN_PREBUFFER_CHUNKS"
  proof (intro allI impI)
    fix n assume "n \<le> length acts"
    then have "Suc n \<le> length (a # acts)" by simp
    then have "queue_depth (playback_run (take (Suc n) (a # acts)) s) < MIN_PREBUFFER_CHUNKS"
      using Cons.prems(2) by blast
    then show "queue_depth (playback_run (take n acts) (playback_step a s)) < MIN_PREBUFFER_CHUNKS"
      by simp
  qed
  show ?case using Cons.IH [OF inv rest] ev by simp
qed

lemma queue_drain_items: "items (fst (queue_drain q c)) = []"
proof (induction q c rule: queue_drain.induct)
  case (1 q c)
  show ?case
  proof (cases "xQueueReceive q")
    case None
    then have "items q = []" by (simp add: xQueueReceive_def split: list.splits)
    then show ?thesis using None by (subst queue_drain.simps) simp
  next
    case (Some r)
    then show ?thesis using "1.IH" [OF Some] by (subst queue_drain.simps) simp
  qed
qed

lemma queue_drain_empty: "items q = [] \<Longrightarrow> queue_drain q c = (q, c)"
  by (subst queue_drain.simps) (simp add: xQueueReceive_def)

lemma start_session:
  "audio_playback_queue_start (snd (audio_playback_queue_init True playback_statics))
     = Some session_start"
  by (simp add: audio_playback_queue_start_def audio_playback_queue_init_def playback_statics_def
        xQueueCreateStatic_def queue_drain_empty session_start_def)

text \<open>
  Claim C5, as stated, fails in its second part: the task enables the output at its
  entry, before the pre-buffer wait. In a session where stop is requested while the
  task is pre-buffering, the output has been enabled, and the task flushes silence and
  disables the output on its way out.
\<close>

theorem stop_while_prebuffering_after_enable:
  "audio_playback_queue_start (snd (audio_playback_queue_init True playback_statics))
     = Some session_start
   \<and> task_pc (playback_run [TaskStep ESP_OK True] session_start) = PreBuffering
   \<and> events (playback_run [TaskStep ESP_OK True] session_start) = [I2sEnable ESP_OK]
   \<and> task_pc (playback_run [TaskStep ESP_OK True, StopRequest, TaskStep ESP_OK True,
                   TaskStep ESP_OK True] session_start) = TaskDeleted
   \<and> events (playback_run [TaskStep ESP_OK True, StopRequest, TaskStep ESP_OK True,
                   TaskStep ESP_OK True] session_start)
       = [I2sEnable ESP_OK, I2sWriteSilence 8192, I2sDisable]"
  by (simp add: start_session)
     (simp add: session_start_def queue_playback_task_step_def audio_playback_queue_stop_request_def
        task_exit_def uxQueueMessagesWaiting_def MIN_PREBUFFER_CHUNKS_def Let_def)

text \<open>
  Claim C5, amended. In every playback session, under every interleaving of pushes,
  stop calls and task steps: as long as the depth of the jitter buffer has stayed below
  10, the task has written no chunk to the output device. The output is enabled by the
  task's first step, before the wait. When stop is requested while the task is
  pre-buffering, no chunk is written ever after; the task leaves the wait loop, skips
  the playing loop, writes the silence flush (when it can allocate it), disables the
  output and clears its handle.
\<close>

theorem prebuffer_gate:
  assumes "task_pc s = TaskEntry" and "chunks_written (events s) = []"
    and "task_pc t = PreBuffering" and "audio_playback_queue t \<noteq> None"
  shows "((\<forall>n\<le>length acts. queue_depth (playback_run (take n acts) s) < MIN_PREBUFFER_CHUNKS)
            \<longrightarrow> chunks_written (events (playback_run acts s)) = [])
       \<and> events (queue_playback_task_step ret c s) = events s @ [I2sEnable ret]
       \<and> (ret = ESP_OK \<or> ret = ESP_ERR_INVALID_STATE
            \<longrightarrow> task_pc (queue_playback_task_step ret c s) = PreBuffering)
       \<and> chunks_written (events (playback_run acts (playback_step StopRequest t)))
            = chunks_written (events t)
       \<and> task_pc (playback_run [StopRequest, TaskStep r1 c1, TaskStep r2 c2] t) = TaskDeleted
       \<and> events (playback_run [StopRequest, TaskStep r1 c1, TaskStep r2 c2] t)
            = events t @ (if c2 then [I2sWriteSilence 8192] else []) @ [I2sDisable]
       \<and> \<not> queue_playback_task_handle (playback_run [StopRequest, TaskStep r1 c1, TaskStep r2 c2] t)"
proof -
  have inv: "task_pc s = Playing \<longrightarrow> \<not> queue_playback_active s"
    using assms(1) by simp
  have gate: "(\<forall>n\<le>length acts. queue_depth (playback_run (take n acts) s) < MIN_PREBUFFER_CHUNKS)
            \<longrightarrow> chunks_written (events (playback_run acts s)) = []"
    using gate_run [OF inv, of acts] assms(2) by simp
  have en: "events (queue_playback_task_step ret c s) = events s @ [I2sEnable ret]"
    using assms(1) by (simp add: queue_playback_task_step_def Let_def)
  have pre: "ret = ESP_OK \<or> ret = ESP_ERR_INVALID_STATE
            \<longrightarrow> task_pc (queue_playback_task_step ret c s) = PreBuffering"
    using assms(1) by (auto simp add: queue_playback_task_step_def Let_def)
  have off: "\<not> queue_playback_active (playback_step StopRequest t)"
    by (simp add: stop_request_frame)
  have quiet: "chunks_written (events (playback_run acts (playback_step StopRequest t)))
            = chunks_written (events t)"
    using inactive_run [OF off, of acts] by (simp add: stop_request_frame)
  obtain q where q: "audio_playback_queue t = Some q"
    using assms(4) by auto
  let ?t1 = "audio_playback_queue_stop_request t"
  have t1: "task_pc ?t1 = PreBuffering" "\<not> queue_playback_active ?t1"
    "audio_playback_queue ?t1 = Some q" "events ?t1 = events t"
    using assms(3) q by (simp_all add: stop_request_frame)
  let ?t2 = "queue_playback_task_step r1 c1 ?t1"
  have t2: "?t2 = ?t1\<lparr>task_pc := Playing\<rparr>"
    using t1 by (simp add: queue_playback_task_step_def)
  have t3: "queue_playback_task_step r2 c2 ?t2 = task_exit c2 ?t2"
    using t1 by (simp add: t2 queue_playback_task_step_def)
  have run: "playback_run [StopRequest, TaskStep r1 c1, TaskStep r2 c2] t = task_exit c2 ?t2"
    by (simp add: t3)
  have fin: "task_pc (task_exit c2 ?t2) = TaskDeleted"
    "events (task_exit c2 ?t2) = events t @ (if c2 then [I2sWriteSilence 8192] else []) @ [I2sDisable]"
    "\<not> queue_playback_task_handle (task_exit c2 ?t2)"
    using t1(4) by (simp_all add: t2 task_exit_def Let_def)
  show ?thesis using gate en pre quiet fin unfolding run by blast
qed

lemma session_entry_step:
  "queue_playback_task_step ESP_OK True session_start
     = session_start\<lparr>events := [I2sEnable ESP_OK], task_pc := PreBuffering\<rparr>"
  by (simp add: session_start_def queue_playback_task_step_def Let_def)

theorem prebuffer_gate_witness:
  "chunks_written (events (playback_run [TaskStep ESP_OK True, Push [1, 2] 2 0 False,
       TaskStep ESP_OK True] session_start)) = []
   \<and> task_pc (queue_playback_task_step ESP_OK True session_start) = PreBuffering
   \<and> events (playback_run [StopRequest, TaskStep ESP_OK True, TaskStep ESP_OK True]
        (queue_playback_task_step ESP_OK True session_start))
       = [I2sEnable ESP_OK, I2sWriteSilence 8192, I2sDisable]"
proof -
  let ?acts = "[TaskStep ESP_OK True, Push [1, 2] 2 0 False, TaskStep ESP_OK True]"
  let ?t = "queue_playback_task_step ESP_OK True session_start"
  have s1: "task_pc session_start = TaskEntry"
    by (simp add: session_start_def)
  have s2: "chunks_written (events session_start) = []"
    by (simp add: session_start_def)
  have t1: "task_pc ?t = PreBuffering"
    by (simp add: session_entry_step)
  have t2: "audio_playback_queue ?t \<noteq> None"
    by (simp only: session_entry_step) (simp add: session_start_def)
  have d: "\<forall>n\<le>length ?acts. queue_depth (playback_run (take n ?acts) session_start)
             < MIN_PREBUFFER_CHUNKS"
  proof (intro allI impI)
    fix n assume "n \<le> length ?acts"
    then have "n = 0 \<or> n = 1 \<or> n = 2 \<or> n = 3" by auto
    then show "queue_depth (playback_run (take n ?acts) session_start) < MIN_PREBUFFER_CHUNKS"
      by (elim disjE)
         (simp_all add: session_start_def queue_playback_task_step_def Let_def queue_depth_def
            uxQueueMessagesWaiting_def MIN_PREBUFFER_CHUNKS_def audio_playback_queue_push_def
            xQueueSend_def AUDIO_QUEUE_LENGTH_def)
  qed
  show ?thesis
    using prebuffer_gate [OF s1 s2 t1 t2, where acts = ?acts and ret = ESP_OK and c = True
            and ?r1.0 = ESP_OK and ?c1.0 = True and ?r2.0 = ESP_OK and ?c2.0 = True] d
    by (simp add: session_entry_step)
qed

text \<open>
  The gate does open: with the tenth block queued, the next steps of the task leave the
  wait loop and write the oldest chunk.
\<close>

lemma gate_opens_at_ten:
  "chunks_written (events (playback_run
      [TaskStep ESP_OK True,
       Push [1, 2] 2 0 False, Push [1, 2] 2 1 False, Push [1, 2] 2 2 False,
       Push [1, 2] 2 3 False, Push [1, 2] 2 4 False, Push [1, 2] 2 5 False,
       Push [1, 2] 2 6 False, Push [1, 2] 2 7 False, Push [1, 2] 2 8 False,
       TaskStep ESP_OK True,
       Push [1, 2] 2 9 False,
       TaskStep ESP_OK True, TaskStep ESP_OK True] session_start))
     = [chunk_of ([1, 2], 2, 0, False)]"
  by (simp add: session_start_def queue_playback_task_step_def Let_def
        uxQueueMessagesWaiting_def MIN_PREBUFFER_CHUNKS_def audio_playback_queue_push_def
        xQueueSend_def xQueueReceive_def AUDIO_QUEUE_LENGTH_def chunk_of_def)

end
